theory Spec2Isabelle
  imports Main "HOL-Library.Word" "HOL-Library.Char_ord" "HOL-Library.List_Lexorder"
    "HOL-Library.Product_Lexorder" "HOL-Library.Multiset"
begin

section \<open>Conventions of the embedding\<close>

text \<open>
  The development follows the source of the disposable-inbox application: the generator
  utilities (\<^verbatim>\<open>utils.ts\<close>), the storage layer (the module that defines
  \<^verbatim>\<open>persistCredential\<close>, \<^verbatim>\<open>persistMessage\<close> and \<^verbatim>\<open>fetchRecords\<close>) and the message
  synthesizer \<^verbatim>\<open>createMessageRecord\<close> of the application component.

  \<^item> A JavaScript string is a \<^typ>\<open>string\<close>; one \<^typ>\<open>char\<close> stands for one UTF-16 code
    unit, so the model covers the strings whose code units are below 256 (on those, code
    units and code points coincide, which matters for \<^verbatim>\<open>new Set(password).size\<close>).
  \<^item> A JavaScript number that holds an integer is an \<^typ>\<open>int\<close>.
  \<^item> \<^verbatim>\<open>crypto.getRandomValues(new Uint32Array(1))\<close> reads the next sample of an
    entropy source: a sequence of 32-bit words together with the position of the next
    unread sample. Every function that draws returns the new position.
  \<^item> \<^verbatim>\<open>crypto.randomUUID()\<close> and \<^verbatim>\<open>Date.now()\<close> are inputs of the function that calls them.
  \<^item> The IndexedDB requests of the storage layer are taken to succeed; their rejection
    branches report failures of the browser's backing store and carry no program logic.
\<close>

section \<open>Generator utilities\<close>

datatype StrengthLevel = Weak | Medium | Strong

definition LETTERS :: string where
  "LETTERS = ''abcdefghijklmnopqrstuvwxyz''"

text \<open>The value of \<^verbatim>\<open>LETTERS.toUpperCase()\<close>.\<close>

definition LETTERS_UPPER :: string where
  "LETTERS_UPPER = ''ABCDEFGHIJKLMNOPQRSTUVWXYZ''"

definition NUMBERS :: string where
  "NUMBERS = ''0123456789''"

definition SYMBOLS :: string where
  "SYMBOLS = ''!@#$%^&*()-_=+[]{};:,.?''"

definition EMAIL_DOMAINS :: "string list" where
  "EMAIL_DOMAINS =
    [''guerrillamail.com'', ''mailinator.com'', ''tempmail.org'', ''10minutemail.com'',
     ''maildrop.cc'', ''inboxkitten.com'', ''dispostable.com'', ''temp-mail.io'',
     ''yopmail.com'', ''mintemail.com'', ''fakeinbox.com'', ''mailcatch.com'']"

definition phoneticPrefixes :: "string list" where
  "phoneticPrefixes =
    [''alpha'', ''bravo'', ''charlie'', ''delta'', ''echo'', ''foxtrot'', ''gamma'',
     ''helios'', ''ion'', ''juno'', ''kilo'', ''lima'', ''nova'', ''orion'', ''pluto'',
     ''quantum'']"

type_synonym entropy = "nat \<Rightarrow> 32 word"

text \<open>
  \<^verbatim>\<open>randomInt(min, max)\<close> on the sample \<^verbatim>\<open>array[0]\<close>. Every call site passes
  constants with \<^verbatim>\<open>max - min + 1 > 0\<close>, where JavaScript's \<^verbatim>\<open>%\<close> on a non-negative
  dividend is \<open>mod\<close>.
\<close>

definition randomInt :: "int \<Rightarrow> int \<Rightarrow> 32 word \<Rightarrow> int" where
  "randomInt minv maxv sample = (let range = maxv - minv + 1 in minv + (uint sample mod range))"

text \<open>
  \<^verbatim>\<open>randomChar(source)\<close> on the sample \<^verbatim>\<open>array[0]\<close>: a string of one code unit. On the
  empty source the index is \<^verbatim>\<open>NaN\<close> and the read yields \<^verbatim>\<open>undefined\<close>, which the callers'
  \<^verbatim>\<open>+=\<close> appends as the text \<^verbatim>\<open>undefined\<close>.
\<close>

definition randomChar :: "string \<Rightarrow> 32 word \<Rightarrow> string" where
  "randomChar source sample =
    (if source = [] then ''undefined'' else [source ! (unat sample mod length source)])"

subsection \<open>Character classes of the regular expressions\<close>

definition upperAZ :: "char \<Rightarrow> bool" where
  "upperAZ c \<longleftrightarrow> CHR ''A'' \<le> c \<and> c \<le> CHR ''Z''"

definition lowerAZ :: "char \<Rightarrow> bool" where
  "lowerAZ c \<longleftrightarrow> CHR ''a'' \<le> c \<and> c \<le> CHR ''z''"

definition digit09 :: "char \<Rightarrow> bool" where
  "digit09 c \<longleftrightarrow> CHR ''0'' \<le> c \<and> c \<le> CHR ''9''"

text \<open>The class \<^verbatim>\<open>[A-Za-z0-9]\<close>.\<close>

definition alnumChar :: "char \<Rightarrow> bool" where
  "alnumChar c \<longleftrightarrow> upperAZ c \<or> lowerAZ c \<or> digit09 c"

text \<open>The class \<^verbatim>\<open>\w\<close>, that is \<^verbatim>\<open>[A-Za-z0-9_]\<close>.\<close>

definition wordChar :: "char \<Rightarrow> bool" where
  "wordChar c \<longleftrightarrow> alnumChar c \<or> c = CHR ''_''"

subsection \<open>Email addresses\<close>

text \<open>
  The padding loop of \<^verbatim>\<open>generateRandomEmail\<close>: each round draws the alphabet
  (\<^verbatim>\<open>randomInt(0, 1)\<close>) and then the character.
\<close>

function email_loop :: "entropy \<Rightarrow> int \<Rightarrow> string \<Rightarrow> nat \<Rightarrow> string \<times> nat" where
  "email_loop src localLength local pos =
    (if int (length local) < localLength
     then email_loop src localLength
            (local @ randomChar (if randomInt 0 1 (src pos) = 0 then LETTERS else NUMBERS)
                       (src (pos + 1)))
            (pos + 2)
     else (local, pos))"
  by pat_completeness auto
termination
  by (relation "measure (\<lambda>(src, localLength, local, pos). nat (localLength - int (length local)))")
     (auto simp: randomChar_def)

declare email_loop.simps [simp del]

definition generateRandomEmail :: "entropy \<Rightarrow> nat \<Rightarrow> string \<times> nat" where
  "generateRandomEmail src pos =
    (let localLength = randomInt 8 12 (src pos);
         local0 = phoneticPrefixes !
                    nat (randomInt 0 (int (length phoneticPrefixes) - 1) (src (pos + 1)));
         (local, pos') = email_loop src localLength local0 (pos + 2);
         domain = EMAIL_DOMAINS !
                    nat (randomInt 0 (int (length EMAIL_DOMAINS) - 1) (src pos'))
     in (local @ ''@'' @ domain, pos' + 1))"

subsection \<open>Passwords\<close>

definition passwordHasRequirements :: "string \<Rightarrow> bool" where
  "passwordHasRequirements password =
    (let hasUpper = list_ex upperAZ password;
         hasLower = list_ex lowerAZ password;
         hasNumber = list_ex digit09 password;
         hasSymbol = list_ex (\<lambda>c. \<not> alnumChar c) password
     in hasUpper \<and> hasLower \<and> hasNumber \<and> hasSymbol)"

definition allChars :: string where
  "allChars = LETTERS @ LETTERS_UPPER @ NUMBERS @ SYMBOLS"

function password_loop :: "entropy \<Rightarrow> int \<Rightarrow> string \<Rightarrow> nat \<Rightarrow> string \<times> nat" where
  "password_loop src len password pos =
    (if int (length password) < len
     then password_loop src len (password @ randomChar allChars (src pos)) (pos + 1)
     else (password, pos))"
  by pat_completeness auto
termination
  by (relation "measure (\<lambda>(src, len, password, pos). nat (len - int (length password)))")
     (auto simp: randomChar_def)

declare password_loop.simps [simp del]

text \<open>
  \<^verbatim>\<open>generateSecurePassword\<close> calls itself when the draw misses a character class, with no
  bound on the number of calls. The value \<open>None\<close> stands for a call that never returns a
  password. The definition puts no limit on the depth of the self-calls, while an engine
  that keeps a stack frame for each of them throws \<^verbatim>\<open>RangeError\<close> once its stack is full.
  Every password the program returns is therefore a value \<open>Some\<close> of the definition, and
  where the definition is \<open>None\<close> the program returns nothing (it overflows the stack, or
  runs forever where the engine eliminates tail calls); a value \<open>Some\<close> reached after many
  rejected attempts need not be returned by the program.
\<close>

partial_function (option) generateSecurePassword :: "entropy \<Rightarrow> nat \<Rightarrow> (string \<times> nat) option" where
  "generateSecurePassword src pos =
    (let len = randomInt 12 16 (src pos);
         (password, pos') = password_loop src len [] (pos + 1)
     in if \<not> passwordHasRequirements password
        then generateSecurePassword src pos'
        else Some (password, pos'))"

declare generateSecurePassword.simps [code]

text \<open>
  One attempt of \<^verbatim>\<open>generateSecurePassword\<close> (the length and the characters it draws), and
  the position at which the attempt after \<open>k\<close> rejected ones starts.
\<close>

definition password_attempt :: "entropy \<Rightarrow> nat \<Rightarrow> string \<times> nat" where
  "password_attempt src pos = password_loop src (randomInt 12 16 (src pos)) [] (pos + 1)"

fun attempt_start :: "entropy \<Rightarrow> nat \<Rightarrow> nat \<Rightarrow> nat" where
  "attempt_start src pos 0 = pos"
| "attempt_start src pos (Suc k) = attempt_start src (snd (password_attempt src pos)) k"

text \<open>
  Three entropy sources: one that varies, one that delivers the sample 0 forever, and one
  that delivers 0 for a first attempt of twelve characters and varies afterwards.
\<close>

definition sample_source :: entropy where
  "sample_source = (\<lambda>i. word_of_nat (i * 7919 + 13))"



subsection \<open>Strength\<close>

definition evaluateStrength :: "string \<Rightarrow> StrengthLevel" where
  "evaluateStrength password =
    (let score = (0::int);
         uniqueChars = int (length (remdups password));
         score = (if int (length password) \<ge> 12 then score + 1 else score);
         score = (if int (length password) \<ge> 14 then score + 1 else score);
         score = (if list_ex upperAZ password then score + 1 else score);
         score = (if list_ex lowerAZ password then score + 1 else score);
         score = (if list_ex digit09 password then score + 1 else score);
         score = (if list_ex (\<lambda>c. \<not> wordChar c) password then score + 1 else score);
         score = (if uniqueChars \<ge> int (length password) - 2 then score + 1 else score)
     in if score \<le> 3 then Weak else if score \<le> 5 then Medium else Strong)"

text \<open>
  The seven signals of the strength score as the specification lists them, and the tier
  it assigns to a total.
\<close>

definition strength_signals :: "string \<Rightarrow> bool list" where
  "strength_signals s =
    [length s \<ge> 12,
     length s \<ge> 14,
     list_ex upperAZ s,
     list_ex lowerAZ s,
     list_ex digit09 s,
     list_ex (\<lambda>c. \<not> wordChar c) s,
     int (card (set s)) \<ge> int (length s) - 2]"

definition strength_total :: "string \<Rightarrow> nat" where
  "strength_total s = length (filter (\<lambda>b. b) (strength_signals s))"

subsection \<open>One-time codes\<close>

text \<open>
  \<^verbatim>\<open>text.match(/\b\d{4}\b|\b\d{6}\b|\b\d{8}\b/)\<close>. The assertion \<^verbatim>\<open>\b\<close> holds at a position
  when exactly one of the code units before and after it is a word character (a position
  outside the text has none). The matcher tries the start positions from left to right and,
  at each, the three alternatives in their order.
\<close>

definition IsWordChar :: "string \<Rightarrow> int \<Rightarrow> bool" where
  "IsWordChar text e \<longleftrightarrow> 0 \<le> e \<and> e < int (length text) \<and> wordChar (text ! nat e)"

definition word_boundary :: "string \<Rightarrow> nat \<Rightarrow> bool" where
  "word_boundary text e \<longleftrightarrow> IsWordChar text (int e - 1) \<noteq> IsWordChar text (int e)"

definition digits_at :: "string \<Rightarrow> nat \<Rightarrow> nat \<Rightarrow> bool" where
  "digits_at text i n \<longleftrightarrow> i + n \<le> length text \<and> list_all digit09 (take n (drop i text))"

definition alternative_at :: "string \<Rightarrow> nat \<Rightarrow> nat \<Rightarrow> bool" where
  "alternative_at text i n \<longleftrightarrow>
     word_boundary text i \<and> digits_at text i n \<and> word_boundary text (i + n)"

definition match_at :: "string \<Rightarrow> nat \<Rightarrow> string option" where
  "match_at text i =
    (if alternative_at text i 4 then Some (take 4 (drop i text))
     else if alternative_at text i 6 then Some (take 6 (drop i text))
     else if alternative_at text i 8 then Some (take 8 (drop i text))
     else None)"

function regex_scan :: "string \<Rightarrow> nat \<Rightarrow> string option" where
  "regex_scan text i =
    (if i > length text then None
     else (case match_at text i of
             Some m \<Rightarrow> Some m
           | None \<Rightarrow> regex_scan text (i + 1)))"
  by pat_completeness auto
termination
  by (relation "measure (\<lambda>(text, i). Suc (length text) - i)") auto

declare regex_scan.simps [simp del]

definition extractOtp :: "string \<Rightarrow> string option" where
  "extractOtp text = regex_scan text 0"

text \<open>
  The specification's standalone run: \<open>n\<close> digits at position \<open>i\<close>, with \<open>n\<close> one of 4, 6
  and 8, and a word boundary on both sides, that is, no word character next to the run.
\<close>

definition standalone_run :: "string \<Rightarrow> nat \<Rightarrow> nat \<Rightarrow> bool" where
  "standalone_run text i n \<longleftrightarrow>
     (n = 4 \<or> n = 6 \<or> n = 8) \<and> i + n \<le> length text \<and>
     (\<forall>j < n. digit09 (text ! (i + j))) \<and>
     (i = 0 \<or> \<not> wordChar (text ! (i - 1))) \<and>
     (i + n = length text \<or> \<not> wordChar (text ! (i + n)))"

section \<open>Records\<close>

text \<open>
  \<^verbatim>\<open>CredentialRecord\<close> and \<^verbatim>\<open>MessageRecord\<close> share the key path \<^verbatim>\<open>id\<close> and the indexed
  field \<^verbatim>\<open>timestamp\<close>; the storage layer reads nothing else.
\<close>

record StoredRecord =
  rec_id :: string
  timestamp :: int

record CredentialRecord = StoredRecord +
  email :: string
  password :: string
  strength :: StrengthLevel

record MessageRecord = StoredRecord +
  sender :: string
  subject :: string
  body :: string
  otp :: "string option"

section \<open>Message synthesizer\<close>

record MessageTemplate =
  template_sender :: string
  subjects :: "string list"
  bodies :: "string list"

definition OTP_LENGTHS :: "int list" where
  "OTP_LENGTHS = [4, 6, 8]"

definition messageTemplates :: "MessageTemplate list" where
  "messageTemplates = [
   \<lparr>template_sender = ''Google'',
     subjects = [''Google verification code %CODE%'',
       ''Google security PIN %CODE%''],
     bodies = [''Your Google verification code is %CODE%. Enter this code within 10 minutes to continue.'',
       ''Google account sign-in attempt detected. Use code %CODE% to verify it's you.'']\<rparr>,
   \<lparr>template_sender = ''Facebook'',
     subjects = [''Facebook login code %CODE%'',
       ''Facebook password reset %CODE%''],
     bodies = [''Someone tried to sign in to Facebook. Use %CODE% to confirm it was you.'',
       ''Reset your Facebook password with code %CODE%. It expires soon.'']\<rparr>,
   \<lparr>template_sender = ''WhatsApp'',
     subjects = [''WhatsApp code %CODE%'',
       ''WhatsApp secure login %CODE%''],
     bodies = [''Your WhatsApp verification code is %CODE%. Never forward this OTP.'',
       ''WhatsApp code: %CODE%. Only use this code for the official app.'']\<rparr>,
   \<lparr>template_sender = ''Instagram'',
     subjects = [''Instagram confirmation %CODE%'',
       ''Instagram login help %CODE%''],
     bodies = [''Enter %CODE% on Instagram to finish signing in.'',
       ''We received a login request. Use code %CODE% if it was you.'']\<rparr>,
   \<lparr>template_sender = ''Twitter'',
     subjects = [''Twitter security code %CODE%'',
       ''Twitter login verification %CODE%''],
     bodies = [''Use %CODE% as your security code for Twitter. Do not share it.'',
       ''Enter %CODE% to confirm access to your Twitter account.'']\<rparr>,
   \<lparr>template_sender = ''LinkedIn'',
     subjects = [''LinkedIn login code %CODE%'',
       ''LinkedIn security alert %CODE%''],
     bodies = [''Use %CODE% to finish signing in to LinkedIn.'',
       ''LinkedIn security check: enter code %CODE% to continue.'']\<rparr>,
   \<lparr>template_sender = ''Amazon'',
     subjects = [''Amazon verification %CODE%'',
       ''Amazon account protection %CODE%''],
     bodies = [''Amazon one-time password: %CODE%. Keep your account secure.'',
       ''Enter %CODE% to confirm recent activity on Amazon.'']\<rparr>,
   \<lparr>template_sender = ''Apple'',
     subjects = [''Apple ID sign in %CODE%'',
       ''Apple security code %CODE%''],
     bodies = [''Use %CODE% as your Apple ID verification code.'',
       ''Apple verification code %CODE%. It will expire shortly.'']\<rparr>,
   \<lparr>template_sender = ''Microsoft'',
     subjects = [''Microsoft account code %CODE%'',
       ''Microsoft security alert %CODE%''],
     bodies = [''Here is your Microsoft account code: %CODE%.'',
       ''Microsoft security warning: enter %CODE% if you recognize this sign in.'']\<rparr>,
   \<lparr>template_sender = ''PayPal'',
     subjects = [''PayPal confirmation %CODE%'',
       ''PayPal secure code %CODE%''],
     bodies = [''Use %CODE% to approve recent activity on your PayPal account.'',
       ''PayPal code %CODE% will expire in 5 minutes.'']\<rparr>,
   \<lparr>template_sender = ''Netflix'',
     subjects = [''Netflix access code %CODE%'',
       ''Netflix login help %CODE%''],
     bodies = [''Netflix verification code: %CODE%.'',
       ''We detected a new login. Use %CODE% if this was you.'']\<rparr>,
   \<lparr>template_sender = ''Uber'',
     subjects = [''Uber verification %CODE%'',
       ''Uber ride security %CODE%''],
     bodies = [''Enter %CODE% in Uber to complete your sign in.'',
       ''Uber security check: code %CODE%.'']\<rparr>,
   \<lparr>template_sender = ''Slack'',
     subjects = [''Slack login code %CODE%'',
       ''Slack workspace access %CODE%''],
     bodies = [''Slack verification code: %CODE%.'',
       ''Use %CODE% to access your Slack workspace.'']\<rparr>,
   \<lparr>template_sender = ''Zoom'',
     subjects = [''Zoom meeting code %CODE%'',
       ''Zoom account security %CODE%''],
     bodies = [''Secure your Zoom account with code %CODE%.'',
       ''Zoom verification: %CODE%. Never share it.'']\<rparr>,
   \<lparr>template_sender = ''Dropbox'',
     subjects = [''Dropbox sign-in code %CODE%'',
       ''Dropbox device alert %CODE%''],
     bodies = [''Dropbox code %CODE% keeps your files secure.'',
       ''Someone tried to access Dropbox. Use %CODE% if it was you.'']\<rparr>,
   \<lparr>template_sender = ''GitHub'',
     subjects = [''GitHub 2FA code %CODE%'',
       ''GitHub security check %CODE%''],
     bodies = [''Your GitHub authentication code is %CODE%.'',
       ''GitHub security: use %CODE% to finish signing in.'']\<rparr>,
   \<lparr>template_sender = ''Snapchat'',
     subjects = [''Snapchat login code %CODE%'',
       ''Snapchat recovery code %CODE%''],
     bodies = [''Enter %CODE% to access Snapchat on your device.'',
       ''Snapchat recovery code: %CODE%.'']\<rparr>,
   \<lparr>template_sender = ''Telegram'',
     subjects = [''Telegram code %CODE%'',
       ''Telegram sign-in %CODE%''],
     bodies = [''Telegram login code: %CODE%.'',
       ''Use %CODE% to confirm Telegram access.'']\<rparr>,
   \<lparr>template_sender = ''Stripe'',
     subjects = [''Stripe verification %CODE%'',
       ''Stripe alert %CODE%''],
     bodies = [''Stripe security code: %CODE%.'',
       ''Enter %CODE% to verify your recent Stripe activity.'']\<rparr>,
   \<lparr>template_sender = ''Airbnb'',
     subjects = [''Airbnb confirmation %CODE%'',
       ''Airbnb login %CODE%''],
     bodies = [''Use %CODE% to confirm your Airbnb booking.'',
       ''Airbnb login security code: %CODE%.'']\<rparr>,
   \<lparr>template_sender = ''Spotify'',
     subjects = [''Spotify access code %CODE%'',
       ''Spotify sign in %CODE%''],
     bodies = [''Spotify verification code: %CODE%.'',
       ''Enter %CODE% to continue with Spotify.'']\<rparr>,
   \<lparr>template_sender = ''Discord'',
     subjects = [''Discord login code %CODE%'',
       ''Discord security %CODE%''],
     bodies = [''Discord verification: %CODE%.'',
       ''Discord code %CODE% prevents unauthorized access.'']\<rparr>]"

text \<open>\<^verbatim>\<open>Number.prototype.toString\<close> on an integer: its decimal digits.\<close>

fun decimal :: "nat \<Rightarrow> string" where
  "decimal n =
    (if n < 10 then [char_of (48 + n)] else decimal (n div 10) @ [char_of (48 + n mod 10)])"

declare decimal.simps [simp del]

definition toString :: "int \<Rightarrow> string" where
  "toString n = (if n < 0 then ''-'' @ decimal (nat (- n)) else decimal (nat n))"

text \<open>
  \<^verbatim>\<open>template.replace(/%CODE%/g, code)\<close>: every occurrence, left to right. The replacement
  is a digit string, so none of the \<^verbatim>\<open>$\<close> patterns of \<^verbatim>\<open>replace\<close> applies.
\<close>

fun replaceCode :: "string \<Rightarrow> string \<Rightarrow> string" where
  "replaceCode [] code = []"
| "replaceCode (c # cs) code =
    (if take 6 (c # cs) = ''%CODE%'' then code @ replaceCode (drop 5 cs) code
     else c # replaceCode cs code)"

function otp_loop :: "entropy \<Rightarrow> int \<Rightarrow> int \<Rightarrow> string \<Rightarrow> nat \<Rightarrow> string \<times> nat" where
  "otp_loop src otpLength i code pos =
    (if i < otpLength
     then otp_loop src otpLength (i + 1) (code @ toString (randomInt 0 9 (src pos))) (pos + 1)
     else (code, pos))"
  by pat_completeness auto
termination
  by (relation "measure (\<lambda>(src, otpLength, i, code, pos). nat (otpLength - i))") auto

declare otp_loop.simps [simp del]

definition createMessageRecord :: "entropy \<Rightarrow> nat \<Rightarrow> string \<Rightarrow> int \<Rightarrow> MessageRecord \<times> nat" where
  "createMessageRecord src pos uuid now =
    (let template = messageTemplates !
                      nat (randomInt 0 (int (length messageTemplates) - 1) (src pos));
         otpLength = OTP_LENGTHS !
                      nat (randomInt 0 (int (length OTP_LENGTHS) - 1) (src (pos + 1)));
         (code, pos1) = otp_loop src otpLength 0 [] (pos + 2);
         subjectTemplate = subjects template !
                      nat (randomInt 0 (int (length (subjects template)) - 1) (src pos1));
         bodyTemplate = bodies template !
                      nat (randomInt 0 (int (length (bodies template)) - 1) (src (pos1 + 1)));
         subjectText = replaceCode subjectTemplate code;
         bodyText = replaceCode bodyTemplate code;
         detectedOtp = (case extractOtp bodyText of Some m \<Rightarrow> m | None \<Rightarrow> code)
     in (\<lparr>rec_id = uuid, timestamp = now, sender = template_sender template,
          subject = subjectText, body = bodyText, otp = Some detectedOtp\<rparr>,
         pos1 + 2))"

section \<open>Storage layer\<close>

definition STORE_LIMIT :: nat where
  "STORE_LIMIT = 100"

datatype StoreName = STORE_CREDENTIALS | STORE_MESSAGES

text \<open>
  The state the storage functions read and write: whether the window offers IndexedDB,
  the two module-level fallback arrays, and the two object stores of the database. An
  object store is keyed by the key path \<^verbatim>\<open>id\<close>; it is the list of its records.
\<close>

record Storage =
  hasIndexedDB :: bool
  inMemoryCredentials :: "CredentialRecord list"
  inMemoryMessages :: "MessageRecord list"
  dbCredentials :: "CredentialRecord list"
  dbMessages :: "MessageRecord list"

text \<open>
  \<^verbatim>\<open>array.sort((a, b) => b.timestamp - a.timestamp)\<close>: a stable sort, the greatest
  timestamp first.
\<close>

definition sort_desc :: "('a StoredRecord_scheme) list \<Rightarrow> ('a StoredRecord_scheme) list" where
  "sort_desc xs = sort_key (\<lambda>r. - timestamp r) xs"

text \<open>\<^verbatim>\<open>store.put(record)\<close> replaces the record stored under the same key.\<close>

definition store_put ::
  "'a StoredRecord_scheme \<Rightarrow> ('a StoredRecord_scheme) list \<Rightarrow> ('a StoredRecord_scheme) list" where
  "store_put record db = record # filter (\<lambda>x. rec_id x \<noteq> rec_id record) db"

definition store_delete ::
  "string \<Rightarrow> ('a StoredRecord_scheme) list \<Rightarrow> ('a StoredRecord_scheme) list" where
  "store_delete k db = filter (\<lambda>x. rec_id x \<noteq> k) db"

text \<open>
  \<^verbatim>\<open>store.index("timestamp").openCursor(null, "prev")\<close>: the records in descending order
  of the index key, records with equal timestamps in descending order of their primary
  key. String keys compare by code units.
\<close>

definition index_prev :: "('a StoredRecord_scheme) list \<Rightarrow> ('a StoredRecord_scheme) list" where
  "index_prev db = rev (sort_key (\<lambda>r. (timestamp r, rec_id r)) db)"

text \<open>
  The cursor callback of \<^verbatim>\<open>trimStore\<close>: count the record under the cursor, delete it when
  the count has passed the limit, continue.
\<close>

fun trim_cursor ::
  "nat \<Rightarrow> ('a StoredRecord_scheme) list \<Rightarrow> ('a StoredRecord_scheme) list
     \<Rightarrow> ('a StoredRecord_scheme) list" where
  "trim_cursor cnt [] db = db"
| "trim_cursor cnt (r # cursor) db =
    (let cnt = cnt + 1;
         db = (if cnt > STORE_LIMIT then store_delete (rec_id r) db else db)
     in trim_cursor cnt cursor db)"

definition trimStore :: "StoreName \<Rightarrow> Storage \<Rightarrow> Storage" where
  "trimStore storeName s =
    (if \<not> hasIndexedDB s then
       (let s = (if storeName = STORE_CREDENTIALS \<and> length (inMemoryCredentials s) > STORE_LIMIT
                 then s\<lparr>inMemoryCredentials :=
                          drop (length (inMemoryCredentials s) - STORE_LIMIT)
                            (inMemoryCredentials s)\<rparr>
                 else s)
        in (if storeName = STORE_MESSAGES \<and> length (inMemoryMessages s) > STORE_LIMIT
            then s\<lparr>inMemoryMessages :=
                     drop (length (inMemoryMessages s) - STORE_LIMIT) (inMemoryMessages s)\<rparr>
            else s))
     else (case storeName of
             STORE_CREDENTIALS \<Rightarrow>
               s\<lparr>dbCredentials := trim_cursor 0 (index_prev (dbCredentials s)) (dbCredentials s)\<rparr>
           | STORE_MESSAGES \<Rightarrow>
               s\<lparr>dbMessages := trim_cursor 0 (index_prev (dbMessages s)) (dbMessages s)\<rparr>))"

definition persistCredential :: "CredentialRecord \<Rightarrow> Storage \<Rightarrow> Storage" where
  "persistCredential record s =
    (if \<not> hasIndexedDB s then
       trimStore STORE_CREDENTIALS
         (s\<lparr>inMemoryCredentials := sort_desc (inMemoryCredentials s @ [record])\<rparr>)
     else
       trimStore STORE_CREDENTIALS (s\<lparr>dbCredentials := store_put record (dbCredentials s)\<rparr>))"

definition persistMessage :: "MessageRecord \<Rightarrow> Storage \<Rightarrow> Storage" where
  "persistMessage record s =
    (if \<not> hasIndexedDB s then
       trimStore STORE_MESSAGES
         (s\<lparr>inMemoryMessages := sort_desc (inMemoryMessages s @ [record])\<rparr>)
     else
       trimStore STORE_MESSAGES (s\<lparr>dbMessages := store_put record (dbMessages s)\<rparr>))"

text \<open>The cursor callback of \<^verbatim>\<open>fetchRecords\<close>: push the value under the cursor, continue.\<close>

fun fetch_cursor :: "'r list \<Rightarrow> 'r list \<Rightarrow> 'r list" where
  "fetch_cursor [] results = results"
| "fetch_cursor (r # cursor) results = fetch_cursor cursor (results @ [r])"

text \<open>
  \<^verbatim>\<open>fetchRecords(storeName)\<close>; the store name selects the fallback array and the object
  store, which the two callers pass here.
\<close>

definition fetchRecords ::
  "bool \<Rightarrow> ('a StoredRecord_scheme) list \<Rightarrow> ('a StoredRecord_scheme) list
     \<Rightarrow> ('a StoredRecord_scheme) list" where
  "fetchRecords hasIDB inMemory db =
    (if \<not> hasIDB then inMemory else fetch_cursor (index_prev db) [])"

definition loadCredentials :: "Storage \<Rightarrow> CredentialRecord list" where
  "loadCredentials s = fetchRecords (hasIndexedDB s) (inMemoryCredentials s) (dbCredentials s)"

definition loadMessages :: "Storage \<Rightarrow> MessageRecord list" where
  "loadMessages s = fetchRecords (hasIndexedDB s) (inMemoryMessages s) (dbMessages s)"

subsection \<open>Sequences of puts\<close>

text \<open>
  When the module is loaded both fallback arrays are empty; the database holds whatever
  earlier sessions left in it.
\<close>

definition initial :: "bool \<Rightarrow> CredentialRecord list \<Rightarrow> MessageRecord list \<Rightarrow> Storage" where
  "initial idb dbc dbm =
    \<lparr>hasIndexedDB = idb, inMemoryCredentials = [], inMemoryMessages = [],
     dbCredentials = dbc, dbMessages = dbm\<rparr>"

datatype put = PutCredential CredentialRecord | PutMessage MessageRecord

fun perform :: "Storage \<Rightarrow> put \<Rightarrow> Storage" where
  "perform s (PutCredential c) = persistCredential c s"
| "perform s (PutMessage m) = persistMessage m s"

definition run :: "put list \<Rightarrow> Storage \<Rightarrow> Storage" where
  "run puts s = foldl perform s puts"

text \<open>The records a logical store holds.\<close>

definition stored_credentials :: "Storage \<Rightarrow> CredentialRecord list" where
  "stored_credentials s = (if hasIndexedDB s then dbCredentials s else inMemoryCredentials s)"

definition stored_messages :: "Storage \<Rightarrow> MessageRecord list" where
  "stored_messages s = (if hasIndexedDB s then dbMessages s else inMemoryMessages s)"

text \<open>Ordered by descending timestamp: no record is followed by a more recent one.\<close>

definition descending :: "('a StoredRecord_scheme) list \<Rightarrow> bool" where
  "descending xs \<longleftrightarrow> sorted_wrt (\<lambda>a b. timestamp b \<le> timestamp a) xs"

subsection \<open>Sample records\<close>

definition sample_credential :: "int \<Rightarrow> CredentialRecord" where
  "sample_credential t =
    \<lparr>rec_id = toString t, timestamp = t, email = ''nova4821@maildrop.cc'',
     password = ''aB3$efgh1jKl'', strength = Strong\<rparr>"

definition sample_message :: "string \<Rightarrow> int \<Rightarrow> MessageRecord" where
  "sample_message k t =
    \<lparr>rec_id = k, timestamp = t, sender = ''Slack'', subject = ''Slack login code 4821'',
     body = ''Slack verification code: 4821.'', otp = Some ''4821''\<rparr>"

text \<open>The invariant of the fallback arrays: both are in descending order.\<close>

definition arrays_descending :: "Storage \<Rightarrow> bool" where
  "arrays_descending s \<longleftrightarrow>
     descending (inMemoryCredentials s) \<and> descending (inMemoryMessages s)"

section \<open>Properties of the generator utilities\<close>

subsection \<open>Random draws and passwords\<close>

lemma randomInt_range:
  "minv \<le> maxv \<Longrightarrow> minv \<le> randomInt minv maxv w \<and> randomInt minv maxv w \<le> maxv"
  unfolding randomInt_def Let_def
  using pos_mod_bound[of "maxv - minv + 1" "uint w"] pos_mod_sign[of "maxv - minv + 1" "uint w"]
  by auto

lemma randomChar_nonempty:
  "source \<noteq> [] \<Longrightarrow> \<exists>c \<in> set source. randomChar source w = [c]"
  by (simp add: randomChar_def)

lemma allChars_nonempty: "allChars \<noteq> []"
  by (simp add: allChars_def LETTERS_def)

lemma password_loop_length:
  "length (fst (password_loop src len p pos)) = max (length p) (nat len)"
proof (induction src len p pos rule: password_loop.induct)
  case (1 src len p pos)
  obtain c where c: "randomChar allChars (src pos) = [c]"
    using randomChar_nonempty[OF allChars_nonempty] by blast
  show ?case
  proof (cases "int (length p) < len")
    case True
    with 1 c show ?thesis by (simp add: password_loop.simps[of src len p pos])
  next
    case False
    then show ?thesis by (simp add: password_loop.simps[of src len p pos])
  qed
qed

lemma password_attempt_length:
  "12 \<le> length (fst (password_attempt src pos)) \<and> length (fst (password_attempt src pos)) \<le> 16"
  using randomInt_range[of 12 16 "src pos"]
  by (auto simp: password_attempt_def password_loop_length)

lemma generateSecurePassword_unfold:
  "generateSecurePassword src pos =
    (if passwordHasRequirements (fst (password_attempt src pos))
     then Some (password_attempt src pos)
     else generateSecurePassword src (snd (password_attempt src pos)))"
  by (subst generateSecurePassword.simps) (simp add: password_attempt_def Let_def split: prod.splits)

lemma generateSecurePassword_sound:
  assumes ret: "generateSecurePassword src pos = Some y"
  shows "\<exists>k. y = password_attempt src (attempt_start src pos k) \<and>
         passwordHasRequirements (fst (password_attempt src (attempt_start src pos k)))"
proof (rule generateSecurePassword.raw_induct
    [where P = "\<lambda>src pos y. \<exists>k. y = password_attempt src (attempt_start src pos k) \<and>
         passwordHasRequirements (fst (password_attempt src (attempt_start src pos k)))", OF _ ret])
  fix g :: "entropy \<Rightarrow> nat \<Rightarrow> (string \<times> nat) option" and src pos y
  assume IH: "\<And>src' pos' y'. g src' pos' = Some y' \<Longrightarrow>
     \<exists>k. y' = password_attempt src' (attempt_start src' pos' k) \<and>
         passwordHasRequirements (fst (password_attempt src' (attempt_start src' pos' k)))"
  assume body: "(let len = randomInt 12 16 (src pos);
         (password, pos') = password_loop src len [] (pos + 1)
     in if \<not> passwordHasRequirements password then g src pos' else Some (password, pos')) = Some y"
  show "\<exists>k. y = password_attempt src (attempt_start src pos k) \<and>
         passwordHasRequirements (fst (password_attempt src (attempt_start src pos k)))"
  proof (cases "passwordHasRequirements (fst (password_attempt src pos))")
    case True
    with body have "y = password_attempt src pos"
      by (auto simp: password_attempt_def Let_def split: prod.splits)
    with True show ?thesis by (intro exI[of _ 0]) simp
  next
    case False
    with body have "g src (snd (password_attempt src pos)) = Some y"
      by (auto simp: password_attempt_def Let_def split: prod.splits)
    from IH[OF this] obtain k where
      "y = password_attempt src (attempt_start src (snd (password_attempt src pos)) k) \<and>
       passwordHasRequirements (fst (password_attempt src (attempt_start src (snd (password_attempt src pos)) k)))"
      by blast
    then show ?thesis by (intro exI[of _ "Suc k"]) simp
  qed
qed



lemma sample_attempt: "password_attempt sample_source 0 = (''BP3*.mAO2&,lzN1'', 16)"
  by (simp add: password_attempt_def sample_source_def randomInt_def randomChar_def allChars_def
      LETTERS_def LETTERS_UPPER_def NUMBERS_def SYMBOLS_def password_loop.simps)

lemma sample_accepted: "passwordHasRequirements ''BP3*.mAO2&,lzN1''"
  by (simp add: passwordHasRequirements_def upperAZ_def lowerAZ_def digit09_def alnumChar_def)

lemma sample_password: "generateSecurePassword sample_source 0 = Some (''BP3*.mAO2&,lzN1'', 16)"
  by (subst generateSecurePassword_unfold) (simp add: sample_attempt sample_accepted)



text \<open>
  Claim C4. Every password that \<^verbatim>\<open>generateSecurePassword\<close> returns has between 12 and 16
  characters and satisfies \<^verbatim>\<open>passwordHasRequirements\<close>: it contains an uppercase letter, a
  lowercase letter, a digit and a character outside \<^verbatim>\<open>[A-Za-z0-9]\<close>.
\<close>

theorem generated_password_requirements:
  assumes "generateSecurePassword src pos = Some (pw, pos')"
  shows "12 \<le> length pw \<and> length pw \<le> 16 \<and> passwordHasRequirements pw \<and>
         list_ex upperAZ pw \<and> list_ex lowerAZ pw \<and> list_ex digit09 pw \<and>
         list_ex (\<lambda>c. \<not> alnumChar c) pw"
proof -
  from generateSecurePassword_sound[OF assms] obtain k where
    k: "(pw, pos') = password_attempt src (attempt_start src pos k)"
       "passwordHasRequirements (fst (password_attempt src (attempt_start src pos k)))"
    by blast
  from k(1)[symmetric] have pw: "fst (password_attempt src (attempt_start src pos k)) = pw"
    by simp
  from k(2) have req: "passwordHasRequirements pw" unfolding pw .
  from password_attempt_length[of src "attempt_start src pos k"]
  have "12 \<le> length pw \<and> length pw \<le> 16" unfolding pw .
  with req show ?thesis by (simp add: passwordHasRequirements_def Let_def)
qed

theorem generated_password_requirements_witness:
  "generateSecurePassword sample_source 0 = Some (''BP3*.mAO2&,lzN1'', 16) \<and>
   12 \<le> length ''BP3*.mAO2&,lzN1'' \<and> length ''BP3*.mAO2&,lzN1'' \<le> 16 \<and>
   passwordHasRequirements ''BP3*.mAO2&,lzN1''"
  using generated_password_requirements[OF sample_password] sample_password by simp




subsection \<open>Strength\<close>

lemma evaluateStrength_by_total:
  "evaluateStrength s =
    (if strength_total s \<le> 3 then Weak else if strength_total s \<le> 5 then Medium else Strong)"
  by (simp add: evaluateStrength_def strength_total_def strength_signals_def Let_def length_remdups_card_conv)

lemma strength_total_four:
  assumes "12 \<le> length s" "list_ex upperAZ s" "list_ex lowerAZ s" "list_ex digit09 s"
  shows "4 \<le> strength_total s"
  using assms by (simp add: strength_total_def strength_signals_def)

text \<open>
  Claim C6. For every string, \<^verbatim>\<open>evaluateStrength\<close> adds one point for each of exactly seven
  signals (length at least 12, length at least 14, an uppercase letter, a lowercase letter,
  a digit, a non-word character, and a number of distinct characters of at least the length
  minus 2) and maps the total to weak when it is at most 3, to medium when it is 4 or 5, and
  to strong when it is at least 6.
\<close>

theorem evaluateStrength_additive:
  "length (strength_signals s) = 7 \<and>
   (strength_total s \<le> 3 \<longrightarrow> evaluateStrength s = Weak) \<and>
   (4 \<le> strength_total s \<and> strength_total s \<le> 5 \<longrightarrow> evaluateStrength s = Medium) \<and>
   (6 \<le> strength_total s \<longrightarrow> evaluateStrength s = Strong)"
  by (simp add: evaluateStrength_by_total strength_signals_def)

theorem evaluateStrength_additive_witness:
  "strength_total ''abc'' \<le> 3 \<and> evaluateStrength ''abc'' = Weak \<and>
   4 \<le> strength_total ''abcdefgh1A'' \<and> strength_total ''abcdefgh1A'' \<le> 5 \<and>
   evaluateStrength ''abcdefgh1A'' = Medium \<and>
   6 \<le> strength_total ''BP3*.mAO2&,lzN1'' \<and> evaluateStrength ''BP3*.mAO2&,lzN1'' = Strong"
proof -
  have weak: "strength_total ''abc'' \<le> 3"
    by (simp add: strength_total_def strength_signals_def upperAZ_def lowerAZ_def digit09_def
        alnumChar_def wordChar_def)
  have med: "4 \<le> strength_total ''abcdefgh1A'' \<and> strength_total ''abcdefgh1A'' \<le> 5"
    by (simp add: strength_total_def strength_signals_def upperAZ_def lowerAZ_def digit09_def
        alnumChar_def wordChar_def)
  have str: "6 \<le> strength_total ''BP3*.mAO2&,lzN1''"
    by (simp add: strength_total_def strength_signals_def upperAZ_def lowerAZ_def digit09_def
        alnumChar_def wordChar_def)
  from weak med str evaluateStrength_additive[of "''abc''"]
    evaluateStrength_additive[of "''abcdefgh1A''"]
    evaluateStrength_additive[of "''BP3*.mAO2&,lzN1''"]
  show ?thesis by blast
qed

text \<open>
  Claim C7. For every string of at least 12 characters that contains an uppercase letter,
  a lowercase letter, a digit and a character outside \<^verbatim>\<open>[A-Za-z0-9]\<close>, \<^verbatim>\<open>evaluateStrength\<close>
  is medium or strong. The result depends on the string alone: \<^verbatim>\<open>evaluateStrength\<close> reads
  no state, so repeated calls on the same string agree.
\<close>

theorem evaluateStrength_all_classes:
  assumes "12 \<le> length s" "list_ex upperAZ s" "list_ex lowerAZ s" "list_ex digit09 s"
    "list_ex (\<lambda>c. \<not> alnumChar c) s"
  shows "evaluateStrength s = Medium \<or> evaluateStrength s = Strong"
  using strength_total_four[OF assms(1-4)] by (simp add: evaluateStrength_by_total)

theorem evaluateStrength_all_classes_witness:
  "12 \<le> length ''BP3*.mAO2&,lzN1'' \<and> list_ex upperAZ ''BP3*.mAO2&,lzN1'' \<and>
   list_ex lowerAZ ''BP3*.mAO2&,lzN1'' \<and> list_ex digit09 ''BP3*.mAO2&,lzN1'' \<and>
   list_ex (\<lambda>c. \<not> alnumChar c) ''BP3*.mAO2&,lzN1'' \<and>
   (evaluateStrength ''BP3*.mAO2&,lzN1'' = Medium \<or> evaluateStrength ''BP3*.mAO2&,lzN1'' = Strong)"
proof -
  have h1: "12 \<le> length ''BP3*.mAO2&,lzN1''" by simp
  have h2: "list_ex upperAZ ''BP3*.mAO2&,lzN1''" by (simp add: upperAZ_def)
  have h3: "list_ex lowerAZ ''BP3*.mAO2&,lzN1''" by (simp add: lowerAZ_def)
  have h4: "list_ex digit09 ''BP3*.mAO2&,lzN1''" by (simp add: digit09_def)
  have h5: "list_ex (\<lambda>c. \<not> alnumChar c) ''BP3*.mAO2&,lzN1''"
    by (simp add: alnumChar_def upperAZ_def lowerAZ_def digit09_def)
  from evaluateStrength_all_classes[OF h1 h2 h3 h4 h5] h1 h2 h3 h4 h5 show ?thesis by blast
qed

subsection \<open>One-time codes\<close>

lemma digit_is_word: "digit09 c \<Longrightarrow> wordChar c"
  by (simp add: wordChar_def alnumChar_def)

lemma IsWordChar_at: "IsWordChar t (int i) \<longleftrightarrow> i < length t \<and> wordChar (t ! i)"
  by (simp add: IsWordChar_def)

lemma IsWordChar_before:
  "IsWordChar t (int i - 1) \<longleftrightarrow> 0 < i \<and> i \<le> length t \<and> wordChar (t ! (i - 1))"
proof (cases i)
  case 0
  then show ?thesis by (simp add: IsWordChar_def)
next
  case (Suc k)
  then show ?thesis by (auto simp: IsWordChar_def)
qed

lemma word_boundary_iff:
  "word_boundary t e \<longleftrightarrow>
     ((0 < e \<and> e \<le> length t \<and> wordChar (t ! (e - 1))) \<noteq> (e < length t \<and> wordChar (t ! e)))"
  unfolding word_boundary_def IsWordChar_at IsWordChar_before ..

lemma digits_at_iff:
  "digits_at t i n \<longleftrightarrow> i + n \<le> length t \<and> (\<forall>j<n. digit09 (t ! (i + j)))"
  by (auto simp: digits_at_def list_all_length)

lemma alternative_at_iff:
  assumes "0 < n"
  shows "alternative_at t i n \<longleftrightarrow>
     i + n \<le> length t \<and> (\<forall>j<n. digit09 (t ! (i + j))) \<and>
     (i = 0 \<or> \<not> wordChar (t ! (i - 1))) \<and>
     (i + n = length t \<or> \<not> wordChar (t ! (i + n)))"
proof (cases "i + n \<le> length t \<and> (\<forall>j<n. digit09 (t ! (i + j)))")
  case False
  then show ?thesis by (auto simp: alternative_at_def digits_at_iff)
next
  case True
  from True assms have first: "wordChar (t ! i)" and i: "i < length t"
    using digit_is_word[of "t ! (i + 0)"] by auto
  from True assms have "digit09 (t ! (i + (n - 1)))" by (metis diff_less zero_less_one)
  with assms have last: "wordChar (t ! (i + n - 1))"
    using digit_is_word by simp
  have b1: "word_boundary t i \<longleftrightarrow> (i = 0 \<or> \<not> wordChar (t ! (i - 1)))"
    using first i by (auto simp: word_boundary_iff)
  have b2: "word_boundary t (i + n) \<longleftrightarrow> (i + n = length t \<or> \<not> wordChar (t ! (i + n)))"
    using last True assms by (auto simp: word_boundary_iff)
  from True b1 b2 show ?thesis by (simp add: alternative_at_def digits_at_iff)
qed

lemma standalone_run_alternative:
  "standalone_run t i n \<longleftrightarrow> (n = 4 \<or> n = 6 \<or> n = 8) \<and> alternative_at t i n"
  by (auto simp: standalone_run_def alternative_at_iff)

lemma standalone_run_longer:
  assumes "standalone_run t i n" "standalone_run t i m" "n < m"
  shows False
proof -
  from assms(2,3) have "digit09 (t ! (i + n))" and "i + n < length t"
    by (auto simp: standalone_run_def)
  with assms(1) digit_is_word show False by (auto simp: standalone_run_def)
qed

lemma standalone_run_unique:
  "standalone_run t i n \<Longrightarrow> standalone_run t i m \<Longrightarrow> n = m"
  using standalone_run_longer[of t i n m] standalone_run_longer[of t i m n]
  by (cases n m rule: linorder_cases) auto

lemma match_at_Some:
  "match_at t i = Some m \<longleftrightarrow> (\<exists>n. standalone_run t i n \<and> m = take n (drop i t))"
proof
  assume found: "match_at t i = Some m"
  then consider
      (four) "alternative_at t i 4" "m = take 4 (drop i t)"
    | (six) "alternative_at t i 6" "m = take 6 (drop i t)"
    | (eight) "alternative_at t i 8" "m = take 8 (drop i t)"
    unfolding match_at_def by (simp split: if_splits)
  then show "\<exists>n. standalone_run t i n \<and> m = take n (drop i t)"
  proof cases
    case four
    then have "standalone_run t i 4" by (simp add: standalone_run_alternative)
    with four(2) show ?thesis by blast
  next
    case six
    then have "standalone_run t i 6" by (simp add: standalone_run_alternative)
    with six(2) show ?thesis by blast
  next
    case eight
    then have "standalone_run t i 8" by (simp add: standalone_run_alternative)
    with eight(2) show ?thesis by blast
  qed
next
  assume "\<exists>n. standalone_run t i n \<and> m = take n (drop i t)"
  then obtain n where n: "standalone_run t i n" "m = take n (drop i t)" by blast
  have alt: "alternative_at t i k \<longleftrightarrow> k = n" if "k = 4 \<or> k = 6 \<or> k = 8" for k
  proof
    assume "alternative_at t i k"
    with that have "standalone_run t i k" by (simp add: standalone_run_alternative)
    from this n(1) show "k = n" by (rule standalone_run_unique)
  next
    assume "k = n"
    with n(1) show "alternative_at t i k" by (simp add: standalone_run_alternative)
  qed
  from n(1) have "n = 4 \<or> n = 6 \<or> n = 8" by (simp add: standalone_run_def)
  then show "match_at t i = Some m"
    unfolding match_at_def using n(2) alt[of 4] alt[of 6] alt[of 8] by auto
qed

lemma match_at_None: "match_at t i = None \<longleftrightarrow> (\<forall>n. \<not> standalone_run t i n)"
  by (auto simp: match_at_def standalone_run_alternative)

lemma regex_scan_None:
  "regex_scan t i = None \<longleftrightarrow> (\<forall>p n. i \<le> p \<longrightarrow> \<not> standalone_run t p n)"
proof (induction t i rule: regex_scan.induct)
  case (1 t i)
  show ?case
  proof (cases "i > length t")
    case True
    then show ?thesis by (auto simp: regex_scan.simps[of t i] standalone_run_def)
  next
    case False
    show ?thesis
    proof (cases "match_at t i")
      case None
      with False 1 have "regex_scan t i = None \<longleftrightarrow>
          (\<forall>p n. i + 1 \<le> p \<longrightarrow> \<not> standalone_run t p n)"
        by (simp add: regex_scan.simps[of t i])
      moreover have "\<forall>n. \<not> standalone_run t i n" using None by (simp add: match_at_None)
      moreover have "(\<forall>p n. i \<le> p \<longrightarrow> \<not> standalone_run t p n) \<longleftrightarrow>
          (\<forall>p n. i + 1 \<le> p \<longrightarrow> \<not> standalone_run t p n)"
      proof
        assume "\<forall>p n. i \<le> p \<longrightarrow> \<not> standalone_run t p n"
        then show "\<forall>p n. i + 1 \<le> p \<longrightarrow> \<not> standalone_run t p n" by simp
      next
        assume later: "\<forall>p n. i + 1 \<le> p \<longrightarrow> \<not> standalone_run t p n"
        show "\<forall>p n. i \<le> p \<longrightarrow> \<not> standalone_run t p n"
        proof (intro allI impI)
          fix p n assume "i \<le> p"
          show "\<not> standalone_run t p n"
          proof (cases "p = i")
            case True
            with \<open>\<forall>n. \<not> standalone_run t i n\<close> show ?thesis by simp
          next
            case False
            with \<open>i \<le> p\<close> have "i + 1 \<le> p" by simp
            with later show ?thesis by simp
          qed
        qed
      qed
      ultimately show ?thesis by simp
    next
      case (Some m)
      then have "\<exists>n. standalone_run t i n" by (auto simp: match_at_Some)
      with Some False show ?thesis by (auto simp: regex_scan.simps[of t i])
    qed
  qed
qed

lemma regex_scan_Some:
  "regex_scan t i = Some m \<longleftrightarrow>
     (\<exists>p n. i \<le> p \<and> standalone_run t p n \<and> m = take n (drop p t) \<and>
            (\<forall>j k. i \<le> j \<and> j < p \<longrightarrow> \<not> standalone_run t j k))"
proof (induction t i rule: regex_scan.induct)
  case (1 t i)
  show ?case
  proof (cases "i > length t")
    case True
    then show ?thesis by (auto simp: regex_scan.simps[of t i] standalone_run_def)
  next
    case False
    show ?thesis
    proof (cases "match_at t i")
      case None
      then have none: "\<forall>n. \<not> standalone_run t i n" by (simp add: match_at_None)
      from None False 1 have step: "regex_scan t i = Some m \<longleftrightarrow>
          (\<exists>p n. i + 1 \<le> p \<and> standalone_run t p n \<and> m = take n (drop p t) \<and>
            (\<forall>j k. i + 1 \<le> j \<and> j < p \<longrightarrow> \<not> standalone_run t j k))"
        by (simp add: regex_scan.simps[of t i])
      show ?thesis
      proof
        assume "regex_scan t i = Some m"
        with step obtain p n where p: "i + 1 \<le> p" "standalone_run t p n"
          "m = take n (drop p t)" "\<forall>j k. i + 1 \<le> j \<and> j < p \<longrightarrow> \<not> standalone_run t j k"
          by blast
        have "\<forall>j k. i \<le> j \<and> j < p \<longrightarrow> \<not> standalone_run t j k"
        proof (intro allI impI)
          fix j k assume "i \<le> j \<and> j < p"
          then show "\<not> standalone_run t j k"
            using none p(4) by (cases "j = i") auto
        qed
        with p show "\<exists>p n. i \<le> p \<and> standalone_run t p n \<and> m = take n (drop p t) \<and>
            (\<forall>j k. i \<le> j \<and> j < p \<longrightarrow> \<not> standalone_run t j k)"
          using \<open>i + 1 \<le> p\<close> by (rule_tac x = p in exI, rule_tac x = n in exI) simp
      next
        assume "\<exists>p n. i \<le> p \<and> standalone_run t p n \<and> m = take n (drop p t) \<and>
            (\<forall>j k. i \<le> j \<and> j < p \<longrightarrow> \<not> standalone_run t j k)"
        then obtain p n where p: "i \<le> p" "standalone_run t p n"
          "m = take n (drop p t)" "\<forall>j k. i \<le> j \<and> j < p \<longrightarrow> \<not> standalone_run t j k"
          by blast
        from p(2) none have "p \<noteq> i" by blast
        with p(1) have "i + 1 \<le> p" by simp
        moreover from p(4) have "\<forall>j k. i + 1 \<le> j \<and> j < p \<longrightarrow> \<not> standalone_run t j k" by simp
        ultimately show "regex_scan t i = Some m" using step p(2,3) by blast
      qed
    next
      case (Some m')
      then obtain n' where n': "standalone_run t i n'" "m' = take n' (drop i t)"
        by (auto simp: match_at_Some)
      from Some False have eq: "regex_scan t i = Some m'"
        by (simp add: regex_scan.simps[of t i])
      show ?thesis
      proof
        assume "regex_scan t i = Some m"
        with eq have "m = m'" by simp
        with n' show "\<exists>p n. i \<le> p \<and> standalone_run t p n \<and> m = take n (drop p t) \<and>
            (\<forall>j k. i \<le> j \<and> j < p \<longrightarrow> \<not> standalone_run t j k)"
          by (rule_tac x = i in exI, rule_tac x = n' in exI) auto
      next
        assume "\<exists>p n. i \<le> p \<and> standalone_run t p n \<and> m = take n (drop p t) \<and>
            (\<forall>j k. i \<le> j \<and> j < p \<longrightarrow> \<not> standalone_run t j k)"
        then obtain p n where p: "i \<le> p" "standalone_run t p n"
          "m = take n (drop p t)" "\<forall>j k. i \<le> j \<and> j < p \<longrightarrow> \<not> standalone_run t j k"
          by blast
        have "p = i"
        proof (rule ccontr)
          assume "p \<noteq> i"
          with p(1) have "i < p" by simp
          with p(4) n'(1) show False by blast
        qed
        with p(2) n'(1) have "n = n'" using standalone_run_unique by blast
        with \<open>p = i\<close> p(3) n'(2) eq show "regex_scan t i = Some m" by simp
      qed
    qed
  qed
qed

lemma extractOtp_Some:
  "extractOtp t = Some m \<longleftrightarrow>
     (\<exists>i n. standalone_run t i n \<and> m = take n (drop i t) \<and>
            (\<forall>j<i. \<forall>k. \<not> standalone_run t j k))"
  by (simp add: extractOtp_def regex_scan_Some)

lemma extractOtp_None: "extractOtp t = None \<longleftrightarrow> (\<forall>i n. \<not> standalone_run t i n)"
  by (simp add: extractOtp_def regex_scan_None)

lemma standalone_run_maximal:
  assumes "standalone_run t i n"
  shows "(i = 0 \<or> \<not> digit09 (t ! (i - 1))) \<and> (i + n = length t \<or> \<not> digit09 (t ! (i + n)))"
  using assms digit_is_word by (auto simp: standalone_run_def)

lemma standalone_run_digits:
  assumes "standalone_run t i n"
  shows "length (take n (drop i t)) = n \<and> list_all digit09 (take n (drop i t))"
  using assms by (auto simp: standalone_run_def list_all_length)

lemma extractOtp_digits:
  assumes "extractOtp t = Some m"
  shows "(length m = 4 \<or> length m = 6 \<or> length m = 8) \<and> list_all digit09 m"
proof -
  from assms obtain i n where "standalone_run t i n" "m = take n (drop i t)"
    by (auto simp: extractOtp_Some)
  with standalone_run_digits[of t i n] show ?thesis by (auto simp: standalone_run_def)
qed

lemmas otp_eval = extractOtp_def regex_scan.simps match_at_def alternative_at_def
  word_boundary_def IsWordChar_def digits_at_def wordChar_def alnumChar_def upperAZ_def
  lowerAZ_def digit09_def

lemma extractOtp_example_1: "extractOtp ''Your code is 482913 today'' = Some ''482913''"
  by (simp add: otp_eval)

lemma extractOtp_example_2: "extractOtp ''order #12345678901 shipped'' = None"
  by (simp add: otp_eval)

text \<open>
  Claim C8. For every text, \<^verbatim>\<open>extractOtp\<close> returns the leftmost standalone run of exactly
  4, 6 or 8 decimal digits that lies between word boundaries (the character before the run
  and the character after it, where there is one, is no letter, digit or underscore), and
  nothing when there is no such run. A run it returns is never part of a longer run of
  digits: the characters next to it are not digits. In particular the text \<^verbatim>\<open>Your code is 482913 today\<close> yields
  \<^verbatim>\<open>482913\<close> and the text \<^verbatim>\<open>order #12345678901 shipped\<close> yields nothing.
\<close>

theorem extractOtp_first_standalone_run:
  "(extractOtp t = Some m \<longleftrightarrow>
      (\<exists>i n. standalone_run t i n \<and> m = take n (drop i t) \<and>
             (\<forall>j<i. \<forall>k. \<not> standalone_run t j k))) \<and>
   (extractOtp t = None \<longleftrightarrow> (\<forall>i n. \<not> standalone_run t i n)) \<and>
   (standalone_run t i n \<longrightarrow>
      (i = 0 \<or> \<not> digit09 (t ! (i - 1))) \<and> (i + n = length t \<or> \<not> digit09 (t ! (i + n)))) \<and>
   extractOtp ''Your code is 482913 today'' = Some ''482913'' \<and>
   extractOtp ''order #12345678901 shipped'' = None"
  using extractOtp_Some[of t m] extractOtp_None[of t] standalone_run_maximal[of t i n]
    extractOtp_example_1 extractOtp_example_2
  by blast

theorem extractOtp_first_standalone_run_witness:
  "standalone_run ''Your code is 482913 today'' 13 6 \<and>
   \<not> digit09 (''Your code is 482913 today'' ! 12) \<and>
   \<not> digit09 (''Your code is 482913 today'' ! 19) \<and>
   (\<exists>i n. standalone_run ''Your code is 482913 today'' i n \<and>
          ''482913'' = take n (drop i ''Your code is 482913 today'') \<and>
          (\<forall>j<i. \<forall>k. \<not> standalone_run ''Your code is 482913 today'' j k)) \<and>
   (\<forall>i n. \<not> standalone_run ''order #12345678901 shipped'' i n)"
proof -
  let ?t = "''Your code is 482913 today''"
  let ?u = "''order #12345678901 shipped''"
  have run: "standalone_run ?t 13 6"
    by (simp add: standalone_run_alternative otp_eval)
  note first = extractOtp_first_standalone_run[of ?t "''482913''" 13 6]
  note second = extractOtp_first_standalone_run[of ?u "''482913''" 13 6]
  from first have found: "extractOtp ?t = Some ''482913''" by (elim conjE)
  with first have leftmost: "\<exists>i n. standalone_run ?t i n \<and> ''482913'' = take n (drop i ?t) \<and>
      (\<forall>j<i. \<forall>k. \<not> standalone_run ?t j k)"
    by (elim conjE) (rule iffD1)
  from first run have "(13 = (0::nat) \<or> \<not> digit09 (?t ! (13 - 1))) \<and>
      (13 + 6 = length ?t \<or> \<not> digit09 (?t ! (13 + 6)))"
    by (elim conjE) (rule mp)
  then have edges: "\<not> digit09 (?t ! 12) \<and> \<not> digit09 (?t ! 19)" by simp
  from second have "extractOtp ?u = None" by (elim conjE)
  with second have none: "\<forall>i n. \<not> standalone_run ?u i n"
    by (elim conjE) (rule iffD1)
  from run edges leftmost none show ?thesis by (intro conjI) (elim conjE, assumption)+
qed

subsection \<open>Email addresses\<close>

lemma email_loop_shape:
  "\<exists>pad. fst (email_loop src n l pos) = l @ pad \<and> set pad \<subseteq> set LETTERS \<union> set NUMBERS \<and>
         length (l @ pad) = max (length l) (nat n)"
proof (induction src n l pos rule: email_loop.induct)
  case (1 src n l pos)
  show ?case
  proof (cases "int (length l) < n")
    case False
    then show ?thesis by (simp add: email_loop.simps[of src n l pos])
  next
    case True
    let ?set = "if randomInt 0 1 (src pos) = 0 then LETTERS else NUMBERS"
    have "?set \<noteq> []" by (simp add: LETTERS_def NUMBERS_def)
    from randomChar_nonempty[OF this] obtain c where
      c: "c \<in> set ?set" "randomChar ?set (src (pos + 1)) = [c]" by blast
    from 1[OF True] obtain pad where pad:
      "fst (email_loop src n (l @ randomChar ?set (src (pos + 1))) (pos + 2)) =
         (l @ randomChar ?set (src (pos + 1))) @ pad"
      "set pad \<subseteq> set LETTERS \<union> set NUMBERS"
      "length ((l @ randomChar ?set (src (pos + 1))) @ pad) =
         max (length (l @ randomChar ?set (src (pos + 1)))) (nat n)"
      by blast
    from c(1) have cin: "c \<in> set LETTERS \<union> set NUMBERS" by (auto split: if_splits)
    have "fst (email_loop src n l pos) = l @ (c # pad)"
      using True pad(1) c(2) by (simp add: email_loop.simps[of src n l pos])
    moreover have "set (c # pad) \<subseteq> set LETTERS \<union> set NUMBERS" using cin pad(2) by simp
    moreover have "length (l @ (c # pad)) = max (length l) (nat n)"
      using pad(3) c(2) True by simp
    ultimately show ?thesis by blast
  qed
qed

lemma prefix_count: "length phoneticPrefixes = 16"
  by (simp add: phoneticPrefixes_def)

lemma domain_count: "length EMAIL_DOMAINS = 12"
  by (simp add: EMAIL_DOMAINS_def)

lemma prefix_index: "nat (randomInt 0 (int (length phoneticPrefixes) - 1) w) < length phoneticPrefixes"
  unfolding prefix_count using randomInt_range[of 0 15 w] by auto

lemma domain_index: "nat (randomInt 0 (int (length EMAIL_DOMAINS) - 1) w) < length EMAIL_DOMAINS"
  unfolding domain_count using randomInt_range[of 0 11 w] by auto

lemma prefix_short: "p \<in> set phoneticPrefixes \<Longrightarrow> length p \<le> 7 \<and> CHR ''@'' \<notin> set p"
  by (auto simp: phoneticPrefixes_def)

lemma domain_no_at: "d \<in> set EMAIL_DOMAINS \<Longrightarrow> CHR ''@'' \<notin> set d"
  by (auto simp: EMAIL_DOMAINS_def)

lemma pad_no_at: "set pad \<subseteq> set LETTERS \<union> set NUMBERS \<Longrightarrow> CHR ''@'' \<notin> set pad"
  by (auto simp: LETTERS_def NUMBERS_def)

lemma filter_no_at: "CHR ''@'' \<notin> set xs \<Longrightarrow> filter (\<lambda>c. c = CHR ''@'') xs = []"
  by (auto simp: filter_empty_conv)

lemma generateRandomEmail_parts:
  "\<exists>prefix pad domain.
      fst (generateRandomEmail src pos) = prefix @ pad @ ''@'' @ domain \<and>
      prefix \<in> set phoneticPrefixes \<and>
      set pad \<subseteq> set LETTERS \<union> set NUMBERS \<and>
      8 \<le> length (prefix @ pad) \<and> length (prefix @ pad) \<le> 12 \<and>
      domain \<in> set EMAIL_DOMAINS \<and>
      length (filter (\<lambda>c. c = CHR ''@'') (fst (generateRandomEmail src pos))) = 1"
proof -
  let ?n = "randomInt 8 12 (src pos)"
  let ?p = "phoneticPrefixes ! nat (randomInt 0 (int (length phoneticPrefixes) - 1) (src (pos + 1)))"
  let ?loop = "email_loop src ?n ?p (pos + 2)"
  let ?d = "EMAIL_DOMAINS ! nat (randomInt 0 (int (length EMAIL_DOMAINS) - 1) (src (snd ?loop)))"
  have email: "fst (generateRandomEmail src pos) = fst ?loop @ ''@'' @ ?d"
    by (simp add: generateRandomEmail_def Let_def split: prod.splits)
  have p: "?p \<in> set phoneticPrefixes" using prefix_index by (rule nth_mem)
  have d: "?d \<in> set EMAIL_DOMAINS" using domain_index by (rule nth_mem)
  from email_loop_shape[of src ?n ?p "pos + 2"] obtain pad where pad:
    "fst ?loop = ?p @ pad" "set pad \<subseteq> set LETTERS \<union> set NUMBERS"
    "length (?p @ pad) = max (length ?p) (nat ?n)" by blast
  have n: "8 \<le> ?n" "?n \<le> 12" using randomInt_range[of 8 12 "src pos"] by simp_all
  from prefix_short[OF p] n pad(3) have len: "8 \<le> length (?p @ pad)" "length (?p @ pad) \<le> 12"
    by auto
  have "filter (\<lambda>c. c = CHR ''@'') (?p @ pad @ ''@'' @ ?d) = ''@''"
    using prefix_short[OF p] pad_no_at[OF pad(2)] domain_no_at[OF d]
    by (simp add: filter_no_at)
  then have one: "length (filter (\<lambda>c. c = CHR ''@'') (fst (generateRandomEmail src pos))) = 1"
    unfolding email pad(1) by simp
  from email pad(1) have "fst (generateRandomEmail src pos) = ?p @ pad @ ''@'' @ ?d" by simp
  with p pad(2) len d one show ?thesis by blast
qed

lemma sample_email: "generateRandomEmail sample_source 0 = (''nova0864208@mintemail.com'', 17)"
  by (simp add: generateRandomEmail_def sample_source_def randomInt_def randomChar_def
      LETTERS_def NUMBERS_def phoneticPrefixes_def EMAIL_DOMAINS_def email_loop.simps)

text \<open>
  Claim C9. Every address that \<^verbatim>\<open>generateRandomEmail\<close> returns contains exactly one \<^verbatim>\<open>@\<close>.
  The part after it is a member of \<^verbatim>\<open>EMAIL_DOMAINS\<close>; the part before it has between 8 and
  12 characters, begins with a word of the phonetic prefix list and continues with
  lowercase letters and digits only.
\<close>

theorem generateRandomEmail_shape:
  "\<exists>prefix pad domain.
      fst (generateRandomEmail src pos) = prefix @ pad @ ''@'' @ domain \<and>
      prefix \<in> set phoneticPrefixes \<and>
      set pad \<subseteq> set LETTERS \<union> set NUMBERS \<and>
      8 \<le> length (prefix @ pad) \<and> length (prefix @ pad) \<le> 12 \<and>
      domain \<in> set EMAIL_DOMAINS \<and>
      length (filter (\<lambda>c. c = CHR ''@'') (fst (generateRandomEmail src pos))) = 1"
  by (rule generateRandomEmail_parts)

theorem generateRandomEmail_shape_witness:
  "fst (generateRandomEmail sample_source 0) = ''nova0864208@mintemail.com'' \<and>
   (\<exists>prefix pad domain.
      ''nova0864208@mintemail.com'' = prefix @ pad @ ''@'' @ domain \<and>
      prefix \<in> set phoneticPrefixes \<and>
      set pad \<subseteq> set LETTERS \<union> set NUMBERS \<and>
      8 \<le> length (prefix @ pad) \<and> length (prefix @ pad) \<le> 12 \<and>
      domain \<in> set EMAIL_DOMAINS \<and>
      length (filter (\<lambda>c. c = CHR ''@'') ''nova0864208@mintemail.com'') = 1)"
  using generateRandomEmail_shape[of sample_source 0] by (simp only: sample_email fst_conv simp_thms)

section \<open>Properties of the message synthesizer\<close>

lemma digit09_char_of: "(n::nat) < 10 \<Longrightarrow> digit09 (char_of (48 + n))"
  by (simp add: digit09_def less_eq_char_def)

lemma toString_digit:
  assumes "0 \<le> k" "k \<le> 9"
  shows "\<exists>c. toString k = [c] \<and> digit09 c"
proof -
  from assms have "nat k < 10" by simp
  with assms(1) show ?thesis
    by (simp add: toString_def decimal.simps[of "nat k"] digit09_char_of)
qed

lemma otp_loop_shape:
  "i \<le> otpLength \<Longrightarrow>
     \<exists>ds. fst (otp_loop src otpLength i code pos) = code @ ds \<and>
          length ds = nat (otpLength - i) \<and> list_all digit09 ds"
proof (induction src otpLength i code pos rule: otp_loop.induct)
  case (1 src otpLength i code pos)
  show ?case
  proof (cases "i < otpLength")
    case False
    then have "otp_loop src otpLength i code pos = (code, pos)"
      by (subst otp_loop.simps) simp
    with False 1(2) show ?thesis by simp
  next
    case True
    from toString_digit[of "randomInt 0 9 (src pos)"] randomInt_range[of 0 9 "src pos"]
    obtain c where c: "toString (randomInt 0 9 (src pos)) = [c]" "digit09 c" by auto
    from True have "i + 1 \<le> otpLength" by simp
    from 1(1)[OF True this] obtain ds where ds:
      "fst (otp_loop src otpLength (i + 1) (code @ toString (randomInt 0 9 (src pos))) (pos + 1)) =
         (code @ toString (randomInt 0 9 (src pos))) @ ds"
      "length ds = nat (otpLength - (i + 1))" "list_all digit09 ds" by blast
    have "fst (otp_loop src otpLength i code pos) = code @ (c # ds)"
      using True ds(1) c(1) by (simp add: otp_loop.simps[of src otpLength i code pos])
    moreover have "length (c # ds) = nat (otpLength - i)" using ds(2) True by simp
    moreover have "list_all digit09 (c # ds)" using c(2) ds(3) by simp
    ultimately show ?thesis by blast
  qed
qed

lemma otpLength_choice:
  "OTP_LENGTHS ! nat (randomInt 0 (int (length OTP_LENGTHS) - 1) w) \<in> {4, 6, 8}"
proof -
  from randomInt_range[of 0 2 w] have "nat (randomInt 0 2 w) \<in> {0, 1, 2}" by auto
  then show ?thesis by (auto simp: OTP_LENGTHS_def)
qed

lemma createMessageRecord_otp_digits:
  "\<exists>d. otp (fst (createMessageRecord src pos uuid now)) = Some d \<and>
       (length d = 4 \<or> length d = 6 \<or> length d = 8) \<and> list_all digit09 d \<and>
       (extractOtp (body (fst (createMessageRecord src pos uuid now))) = Some d \<or>
        extractOtp (body (fst (createMessageRecord src pos uuid now))) = None \<and>
        d = fst (otp_loop src
                  (OTP_LENGTHS ! nat (randomInt 0 (int (length OTP_LENGTHS) - 1) (src (pos + 1))))
                  0 [] (pos + 2)))"
proof -
  let ?len = "OTP_LENGTHS ! nat (randomInt 0 (int (length OTP_LENGTHS) - 1) (src (pos + 1)))"
  let ?code = "fst (otp_loop src ?len 0 [] (pos + 2))"
  let ?r = "fst (createMessageRecord src pos uuid now)"
  have none: "otp ?r = Some ?code" if "extractOtp (body ?r) = None"
    using that by (simp add: createMessageRecord_def Let_def case_prod_beta)
  have some: "otp ?r = Some m" if "extractOtp (body ?r) = Some m" for m
    using that by (simp add: createMessageRecord_def Let_def case_prod_beta)
  from otpLength_choice[of "src (pos + 1)"] have len: "?len = 4 \<or> ?len = 6 \<or> ?len = 8" by simp
  then have "0 \<le> ?len" by auto
  from otp_loop_shape[OF this, of src "[]" "pos + 2"] obtain ds where
    ds: "?code = ds" "length ds = nat ?len" "list_all digit09 ds" by auto
  with len have code: "(length ?code = 4 \<or> length ?code = 6 \<or> length ?code = 8) \<and> list_all digit09 ?code"
    by auto
  show ?thesis
  proof (cases "extractOtp (body ?r)")
    case None
    with none[OF None] code show ?thesis by simp
  next
    case (Some m)
    with some[OF Some] extractOtp_digits[OF Some] show ?thesis by simp
  qed
qed

lemma sample_message_record:
  "createMessageRecord sample_source 0 ''uuid-1'' 1700000000000 =
     (\<lparr>rec_id = ''uuid-1'', timestamp = 1700000000000, sender = ''Zoom'',
       subject = ''Zoom account security 1098'',
       body = ''Secure your Zoom account with code 1098.'', otp = Some ''1098''\<rparr>, 8)"
  by (simp add: createMessageRecord_def sample_source_def randomInt_def messageTemplates_def
      OTP_LENGTHS_def otp_loop.simps toString_def decimal.simps char_of_def bit_Suc_0_iff
      otp_eval Let_def)

text \<open>
  Claim C10. The \<^verbatim>\<open>otp\<close> field of every record that \<^verbatim>\<open>createMessageRecord\<close> produces is
  present, although the record type allows it to be absent, and is a string of exactly 4,
  6 or 8 decimal digits: the code that \<^verbatim>\<open>extractOtp\<close> finds in the rendered body or, when it
  finds none, the digit string that was generated.
\<close>

theorem createMessageRecord_otp:
  "\<exists>d. otp (fst (createMessageRecord src pos uuid now)) = Some d \<and>
       (length d = 4 \<or> length d = 6 \<or> length d = 8) \<and> list_all digit09 d \<and>
       (extractOtp (body (fst (createMessageRecord src pos uuid now))) = Some d \<or>
        extractOtp (body (fst (createMessageRecord src pos uuid now))) = None \<and>
        d = fst (otp_loop src
                  (OTP_LENGTHS ! nat (randomInt 0 (int (length OTP_LENGTHS) - 1) (src (pos + 1))))
                  0 [] (pos + 2)))"
  by (rule createMessageRecord_otp_digits)

theorem createMessageRecord_otp_witness:
  "otp (fst (createMessageRecord sample_source 0 ''uuid-1'' 1700000000000)) = Some ''1098'' \<and>
   (\<exists>d. otp (fst (createMessageRecord sample_source 0 ''uuid-1'' 1700000000000)) = Some d \<and>
        (length d = 4 \<or> length d = 6 \<or> length d = 8) \<and> list_all digit09 d)"
proof -
  have "otp (fst (createMessageRecord sample_source 0 ''uuid-1'' 1700000000000)) = Some ''1098''"
    by (simp add: sample_message_record)
  with createMessageRecord_otp[of sample_source 0 "''uuid-1''" 1700000000000]
  show ?thesis by blast
qed

section \<open>Properties of the storage layer\<close>

subsection \<open>Sorting\<close>

lemma descending_sort_desc: "descending (sort_desc xs)"
proof -
  have "sorted (map (\<lambda>r. - timestamp r) (sort_key (\<lambda>r. - timestamp r) xs))"
    by (rule sorted_sort_key)
  then show ?thesis by (simp add: descending_def sort_desc_def sorted_map)
qed

lemma mset_sort_desc: "mset (sort_desc xs) = mset xs"
  by (simp add: sort_desc_def)

lemma descending_drop: "descending xs \<Longrightarrow> descending (drop n xs)"
  by (simp add: descending_def sorted_wrt_drop)

lemma insort_key_least:
  "\<forall>x \<in> set ys. f y < f x \<Longrightarrow> insort_key f y ys = y # ys"
  by (cases ys) auto

lemma insort_key_greatest:
  "\<forall>x \<in> set ys. f x < f y \<Longrightarrow> insort_key f y ys = ys @ [y]"
  by (induction ys) auto

lemma foldr_insort_least:
  "sorted (map f xs) \<Longrightarrow> \<forall>x \<in> set xs. f y < f x \<Longrightarrow>
     foldr (insort_key f) xs [y] = y # xs"
proof (induction xs)
  case Nil
  then show ?case by simp
next
  case (Cons a xs)
  then have "foldr (insort_key f) (a # xs) [y] = insort_key f a (y # xs)" by simp
  also have "\<dots> = y # insort_key f a xs"
  proof -
    from Cons.prems(2) have "\<not> f a \<le> f y" by auto
    then show ?thesis by simp
  qed
  also have "insort_key f a xs = a # xs" using Cons.prems(1) by (cases xs) auto
  finally show ?case .
qed

lemma sort_key_append_least:
  "sorted (map f xs) \<Longrightarrow> \<forall>x \<in> set xs. f y < f x \<Longrightarrow> sort_key f (xs @ [y]) = y # xs"
  by (simp add: sort_key_def foldr_insort_least)

lemma sort_desc_append_newest:
  assumes "descending xs" "\<forall>x \<in> set xs. timestamp x < timestamp r"
  shows "sort_desc (xs @ [r]) = r # xs"
proof -
  from assms(1) have "sorted (map (\<lambda>r. - timestamp r) xs)"
    by (simp add: descending_def sorted_map)
  moreover from assms(2) have "\<forall>x \<in> set xs. - timestamp r < - timestamp x" by simp
  ultimately show ?thesis unfolding sort_desc_def by (rule sort_key_append_least)
qed

lemma hd_sort_key_least:
  assumes "\<forall>x \<in> set xs. f y < f x"
  shows "\<exists>rest. sort_key f (xs @ [y]) = y # rest"
proof -
  let ?l = "sort_key f (xs @ [y])"
  have "length ?l = Suc (length xs)" by simp
  then obtain z rest where l: "?l = z # rest" by (cases ?l) auto
  have "sorted (map f ?l)" by (rule sorted_sort_key)
  with l have zmin: "\<forall>x \<in> set ?l. f z \<le> f x" by auto
  have members: "set ?l = insert y (set xs)" by simp
  then have "y \<in> set ?l" by blast
  with zmin have "f z \<le> f y" by blast
  moreover have "z \<in> set ?l" unfolding l by simp
  with members have "z \<in> set xs \<or> z = y" by blast
  ultimately have "z = y" using assms by auto
  with l show ?thesis by blast
qed

lemma sort_desc_newest_first:
  assumes "\<forall>x \<in> set xs. timestamp x < timestamp r"
  shows "\<exists>rest. sort_desc (xs @ [r]) = r # rest"
  unfolding sort_desc_def using assms by (intro hd_sort_key_least) simp

subsection \<open>The index cursor\<close>

lemma fetch_cursor_append: "fetch_cursor cursor results = results @ cursor"
  by (induction cursor arbitrary: results) auto

lemma mset_index_prev: "mset (index_prev db) = mset db"
  by (simp add: index_prev_def)

lemma set_index_prev: "set (index_prev db) = set db"
  by (simp add: index_prev_def)

lemma descending_index_prev: "descending (index_prev db)"
proof -
  let ?g = "\<lambda>r. (timestamp r, rec_id r)"
  have "sorted (map ?g (sort_key ?g db))" by (rule sorted_sort_key)
  then have "sorted_wrt (\<lambda>a b. ?g a \<le> ?g b) (sort_key ?g db)" by (simp add: sorted_map)
  then have "sorted_wrt (\<lambda>a b. timestamp a \<le> timestamp b) (sort_key ?g db)"
    by (rule sorted_wrt_mono_rel[rotated]) (auto simp: less_eq_prod_def)
  then show ?thesis by (simp add: descending_def index_prev_def sorted_wrt_rev)
qed

lemma index_prev_filter: "index_prev (filter P db) = filter P (index_prev db)"
  by (simp add: index_prev_def filter_sort[symmetric] rev_filter)

lemma index_prev_newest:
  assumes "\<forall>x \<in> set db. timestamp x < timestamp r"
  shows "index_prev (r # db) = r # index_prev db"
proof -
  let ?g = "\<lambda>r. (timestamp r, rec_id r)"
  from assms have "\<forall>x \<in> set (sort_key ?g db). ?g x < ?g r" by (auto simp: less_prod_def)
  then have "insort_key ?g r (sort_key ?g db) = sort_key ?g db @ [r]" by (rule insort_key_greatest)
  then show ?thesis by (simp add: index_prev_def)
qed

lemma trim_cursor_filter:
  "trim_cursor n cursor db =
     filter (\<lambda>x. rec_id x \<notin> set (map rec_id (drop (STORE_LIMIT - n) cursor))) db"
proof (induction cursor arbitrary: n db)
  case Nil
  then show ?case by simp
next
  case (Cons r cursor)
  show ?case
  proof (cases "n + 1 > STORE_LIMIT")
    case True
    then have "STORE_LIMIT - n = 0" "STORE_LIMIT - (n + 1) = 0" by simp_all
    with True Cons show ?thesis by (auto simp: store_delete_def Let_def intro: filter_cong)
  next
    case False
    then have "STORE_LIMIT - n = Suc (STORE_LIMIT - (n + 1))" by simp
    with False Cons show ?thesis by (simp add: Let_def)
  qed
qed

lemma trim_index_prev:
  "index_prev (trim_cursor 0 (index_prev db) db) =
     filter (\<lambda>x. rec_id x \<notin> set (map rec_id (drop STORE_LIMIT (index_prev db)))) (index_prev db)"
  by (simp add: trim_cursor_filter index_prev_filter)

lemma length_trim_index_prev:
  "length (trim_cursor 0 (index_prev db) db) \<le> STORE_LIMIT"
proof -
  let ?l = "index_prev db"
  let ?P = "\<lambda>x. rec_id x \<notin> set (map rec_id (drop STORE_LIMIT ?l))"
  have "length (trim_cursor 0 ?l db) = length (index_prev (trim_cursor 0 ?l db))"
    by (simp add: index_prev_def)
  also have "\<dots> = length (filter ?P ?l)" by (simp only: trim_index_prev)
  also have "filter ?P ?l = filter ?P (take STORE_LIMIT ?l) @ filter ?P (drop STORE_LIMIT ?l)"
    by (simp only: filter_append[symmetric] append_take_drop_id)
  also have "filter ?P (drop STORE_LIMIT ?l) = []" by (auto simp: filter_empty_conv)
  finally show ?thesis using length_filter_le[of ?P "take STORE_LIMIT ?l"] by simp
qed

lemma trim_keeps_most_recent:
  assumes "distinct (map rec_id db)"
  shows "index_prev (trim_cursor 0 (index_prev db) db) = take STORE_LIMIT (index_prev db)"
proof -
  let ?l = "index_prev db"
  let ?P = "\<lambda>x. rec_id x \<notin> set (map rec_id (drop STORE_LIMIT ?l))"
  have "mset (map rec_id ?l) = mset (map rec_id db)" by (simp add: mset_index_prev)
  from mset_eq_imp_distinct_iff[OF this] assms have "distinct (map rec_id ?l)" by simp
  then have "distinct (map rec_id (take STORE_LIMIT ?l) @ map rec_id (drop STORE_LIMIT ?l))"
    by (simp only: map_append[symmetric] append_take_drop_id)
  then have disj: "\<forall>x \<in> set (take STORE_LIMIT ?l). ?P x" by auto
  have "filter ?P ?l = filter ?P (take STORE_LIMIT ?l) @ filter ?P (drop STORE_LIMIT ?l)"
    by (simp only: filter_append[symmetric] append_take_drop_id)
  also have "filter ?P (drop STORE_LIMIT ?l) = []" by (auto simp: filter_empty_conv)
  also have "filter ?P (take STORE_LIMIT ?l) = take STORE_LIMIT ?l"
    using disj by (simp add: filter_id_conv)
  finally show ?thesis by (simp add: trim_index_prev)
qed

lemma distinct_store_put:
  "distinct (map rec_id db) \<Longrightarrow> distinct (map rec_id (store_put r db))"
  by (auto simp: store_put_def distinct_map_filter)

lemma put_trim_newest_first:
  assumes "\<forall>x \<in> set db. timestamp x < timestamp r"
  shows "\<exists>rest. index_prev (trim_cursor 0 (index_prev (store_put r db)) (store_put r db)) = r # rest"
proof -
  let ?db = "filter (\<lambda>x. rec_id x \<noteq> rec_id r) db"
  let ?l = "index_prev (store_put r db)"
  let ?P = "\<lambda>x. rec_id x \<notin> set (map rec_id (drop STORE_LIMIT ?l))"
  from assms have "\<forall>x \<in> set ?db. timestamp x < timestamp r" by simp
  then have l: "?l = r # index_prev ?db" unfolding store_put_def by (rule index_prev_newest)
  have "set (drop STORE_LIMIT ?l) \<subseteq> set (index_prev ?db)"
    unfolding l by (simp add: STORE_LIMIT_def set_drop_subset)
  then have "?P r" by (auto simp: set_index_prev)
  then have "filter ?P ?l = r # filter ?P (index_prev ?db)" by (subst (2) l) simp
  then show ?thesis by (simp add: trim_index_prev)
qed

subsection \<open>The storage functions on a state\<close>

lemma loadCredentials_idb:
  "hasIndexedDB s \<Longrightarrow> loadCredentials s = index_prev (dbCredentials s)"
  by (simp add: loadCredentials_def fetchRecords_def fetch_cursor_append)

lemma loadMessages_idb:
  "hasIndexedDB s \<Longrightarrow> loadMessages s = index_prev (dbMessages s)"
  by (simp add: loadMessages_def fetchRecords_def fetch_cursor_append)

lemma loadCredentials_mem:
  "\<not> hasIndexedDB s \<Longrightarrow> loadCredentials s = inMemoryCredentials s"
  by (simp add: loadCredentials_def fetchRecords_def)

lemma loadMessages_mem:
  "\<not> hasIndexedDB s \<Longrightarrow> loadMessages s = inMemoryMessages s"
  by (simp add: loadMessages_def fetchRecords_def)

lemma persistCredential_mem:
  assumes "\<not> hasIndexedDB s"
  shows "persistCredential r s =
    s\<lparr>inMemoryCredentials :=
        (let xs = sort_desc (inMemoryCredentials s @ [r])
         in if length xs > STORE_LIMIT then drop (length xs - STORE_LIMIT) xs else xs)\<rparr>"
  using assms by (simp add: persistCredential_def trimStore_def Let_def)

lemma persistMessage_mem:
  assumes "\<not> hasIndexedDB s"
  shows "persistMessage r s =
    s\<lparr>inMemoryMessages :=
        (let xs = sort_desc (inMemoryMessages s @ [r])
         in if length xs > STORE_LIMIT then drop (length xs - STORE_LIMIT) xs else xs)\<rparr>"
  using assms by (simp add: persistMessage_def trimStore_def Let_def)

lemma persistCredential_idb:
  assumes "hasIndexedDB s"
  shows "persistCredential r s =
    s\<lparr>dbCredentials := trim_cursor 0 (index_prev (store_put r (dbCredentials s)))
                          (store_put r (dbCredentials s))\<rparr>"
  using assms by (simp add: persistCredential_def trimStore_def)

lemma persistMessage_idb:
  assumes "hasIndexedDB s"
  shows "persistMessage r s =
    s\<lparr>dbMessages := trim_cursor 0 (index_prev (store_put r (dbMessages s)))
                       (store_put r (dbMessages s))\<rparr>"
  using assms by (simp add: persistMessage_def trimStore_def)

lemma arrays_descending_initial: "arrays_descending (initial idb dbc dbm)"
  by (simp add: arrays_descending_def initial_def descending_def)

lemma arrays_descending_perform:
  assumes "arrays_descending s"
  shows "arrays_descending (perform s p)"
proof (cases "hasIndexedDB s")
  case True
  with assms show ?thesis
    by (cases p) (simp_all add: arrays_descending_def persistCredential_idb persistMessage_idb)
next
  case False
  with assms show ?thesis
    by (cases p)
       (simp_all add: arrays_descending_def persistCredential_mem persistMessage_mem Let_def
          descending_sort_desc descending_drop)
qed

lemma arrays_descending_run:
  "arrays_descending s \<Longrightarrow> arrays_descending (run puts s)"
  unfolding run_def
  by (induction puts arbitrary: s) (simp_all add: arrays_descending_perform)

lemma hasIndexedDB_perform: "hasIndexedDB (perform s p) = hasIndexedDB s"
  by (cases p; cases "hasIndexedDB s")
     (simp_all add: persistCredential_idb persistMessage_idb persistCredential_mem
        persistMessage_mem)

lemma hasIndexedDB_run: "hasIndexedDB (run puts s) = hasIndexedDB s"
  unfolding run_def
  by (induction puts arbitrary: s) (simp_all add: hasIndexedDB_perform)

lemma load_descending_complete:
  assumes "arrays_descending s"
  shows "descending (loadCredentials s) \<and> mset (loadCredentials s) = mset (stored_credentials s) \<and>
         descending (loadMessages s) \<and> mset (loadMessages s) = mset (stored_messages s)"
proof (cases "hasIndexedDB s")
  case True
  then show ?thesis
    by (simp add: loadCredentials_idb loadMessages_idb descending_index_prev mset_index_prev
        stored_credentials_def stored_messages_def)
next
  case False
  with assms show ?thesis
    by (simp add: loadCredentials_mem loadMessages_mem arrays_descending_def
        stored_credentials_def stored_messages_def)
qed

lemma load_empty:
  "(stored_credentials s = [] \<longrightarrow> loadCredentials s = []) \<and>
   (stored_messages s = [] \<longrightarrow> loadMessages s = [])"
  by (cases "hasIndexedDB s")
     (simp_all add: loadCredentials_idb loadMessages_idb loadCredentials_mem loadMessages_mem
        stored_credentials_def stored_messages_def index_prev_def)

subsection \<open>Head after a put\<close>

lemma persistCredential_head:
  assumes "\<forall>x \<in> set (stored_credentials s). timestamp x < timestamp c"
      and "hasIndexedDB s \<or> length (inMemoryCredentials s) < STORE_LIMIT"
  shows "take 1 (loadCredentials (persistCredential c s)) = [c]"
proof (cases "hasIndexedDB s")
  case True
  with assms(1) have "\<forall>x \<in> set (dbCredentials s). timestamp x < timestamp c"
    by (simp add: stored_credentials_def)
  from put_trim_newest_first[OF this] True show ?thesis
    by (auto simp: persistCredential_idb loadCredentials_idb)
next
  case False
  with assms(1) have "\<forall>x \<in> set (inMemoryCredentials s). timestamp x < timestamp c"
    by (simp add: stored_credentials_def)
  from sort_desc_newest_first[OF this] obtain rest where
    rest: "sort_desc (inMemoryCredentials s @ [c]) = c # rest" by blast
  have "length (sort_desc (inMemoryCredentials s @ [c])) = Suc (length (inMemoryCredentials s))"
    by (simp add: sort_desc_def)
  with assms(2) False have "\<not> length (sort_desc (inMemoryCredentials s @ [c])) > STORE_LIMIT"
    by simp
  with False rest show ?thesis
    by (simp add: persistCredential_mem loadCredentials_mem Let_def)
qed

lemma persistMessage_head:
  assumes "\<forall>x \<in> set (stored_messages s). timestamp x < timestamp m"
      and "hasIndexedDB s \<or> length (inMemoryMessages s) < STORE_LIMIT"
  shows "take 1 (loadMessages (persistMessage m s)) = [m]"
proof (cases "hasIndexedDB s")
  case True
  with assms(1) have "\<forall>x \<in> set (dbMessages s). timestamp x < timestamp m"
    by (simp add: stored_messages_def)
  from put_trim_newest_first[OF this] True show ?thesis
    by (auto simp: persistMessage_idb loadMessages_idb)
next
  case False
  with assms(1) have "\<forall>x \<in> set (inMemoryMessages s). timestamp x < timestamp m"
    by (simp add: stored_messages_def)
  from sort_desc_newest_first[OF this] obtain rest where
    rest: "sort_desc (inMemoryMessages s @ [m]) = m # rest" by blast
  have "length (sort_desc (inMemoryMessages s @ [m])) = Suc (length (inMemoryMessages s))"
    by (simp add: sort_desc_def)
  with assms(2) False have "\<not> length (sort_desc (inMemoryMessages s @ [m])) > STORE_LIMIT"
    by simp
  with False rest show ?thesis
    by (simp add: persistMessage_mem loadMessages_mem Let_def)
qed

subsection \<open>The fallback array at capacity\<close>

lemma persistCredential_mem_room:
  assumes "\<not> hasIndexedDB s" "descending (inMemoryCredentials s)"
      and "\<forall>x \<in> set (inMemoryCredentials s). timestamp x < timestamp c"
      and "length (inMemoryCredentials s) < STORE_LIMIT"
  shows "persistCredential c s = s\<lparr>inMemoryCredentials := c # inMemoryCredentials s\<rparr>"
  using assms by (simp add: persistCredential_mem sort_desc_append_newest Let_def)

lemma persistCredential_mem_full:
  assumes "\<not> hasIndexedDB s" "descending (inMemoryCredentials s)"
      and "\<forall>x \<in> set (inMemoryCredentials s). timestamp x < timestamp c"
      and "length (inMemoryCredentials s) = STORE_LIMIT"
  shows "persistCredential c s = s"
  using assms by (simp add: persistCredential_mem sort_desc_append_newest Let_def)

lemma persistMessage_mem_room:
  assumes "\<not> hasIndexedDB s" "descending (inMemoryMessages s)"
      and "\<forall>x \<in> set (inMemoryMessages s). timestamp x < timestamp m"
      and "length (inMemoryMessages s) < STORE_LIMIT"
  shows "persistMessage m s = s\<lparr>inMemoryMessages := m # inMemoryMessages s\<rparr>"
  using assms by (simp add: persistMessage_mem sort_desc_append_newest Let_def)

lemma persistMessage_mem_full:
  assumes "\<not> hasIndexedDB s" "descending (inMemoryMessages s)"
      and "\<forall>x \<in> set (inMemoryMessages s). timestamp x < timestamp m"
      and "length (inMemoryMessages s) = STORE_LIMIT"
  shows "persistMessage m s = s"
  using assms by (simp add: persistMessage_mem sort_desc_append_newest Let_def)

lemma persistCredential_idb_keeps_most_recent:
  assumes "hasIndexedDB s" "distinct (map rec_id (dbCredentials s))"
  shows "loadCredentials (persistCredential c s) =
           take STORE_LIMIT (index_prev (store_put c (dbCredentials s)))"
  using assms trim_keeps_most_recent[OF distinct_store_put[OF assms(2)], of c]
  by (simp add: persistCredential_idb loadCredentials_idb)

lemma persistMessage_idb_keeps_most_recent:
  assumes "hasIndexedDB s" "distinct (map rec_id (dbMessages s))"
  shows "loadMessages (persistMessage m s) =
           take STORE_LIMIT (index_prev (store_put m (dbMessages s)))"
  using assms trim_keeps_most_recent[OF distinct_store_put[OF assms(2)], of m]
  by (simp add: persistMessage_idb loadMessages_idb)

subsection \<open>Loading\<close>

text \<open>
  Claim C2. In every state that a sequence of puts reaches, \<^verbatim>\<open>loadCredentials\<close> and
  \<^verbatim>\<open>loadMessages\<close> return all the records their store holds, in descending order of
  timestamp (no record is followed by a more recent one), and on an empty store they
  return the empty sequence.
\<close>

theorem loadAll_descending_complete:
  "descending (loadCredentials (run puts (initial idb dbc dbm))) \<and>
   mset (loadCredentials (run puts (initial idb dbc dbm))) =
     mset (stored_credentials (run puts (initial idb dbc dbm))) \<and>
   descending (loadMessages (run puts (initial idb dbc dbm))) \<and>
   mset (loadMessages (run puts (initial idb dbc dbm))) =
     mset (stored_messages (run puts (initial idb dbc dbm))) \<and>
   (stored_credentials (run puts (initial idb dbc dbm)) = [] \<longrightarrow>
      loadCredentials (run puts (initial idb dbc dbm)) = []) \<and>
   (stored_messages (run puts (initial idb dbc dbm)) = [] \<longrightarrow>
      loadMessages (run puts (initial idb dbc dbm)) = [])"
  using load_descending_complete[OF arrays_descending_run[OF arrays_descending_initial],
          of puts idb dbc dbm]
        load_empty[of "run puts (initial idb dbc dbm)"]
  by blast

theorem loadAll_descending_complete_witness:
  "stored_credentials
     (run [PutMessage (sample_message ''a'' 5), PutMessage (sample_message ''b'' 9)]
        (initial False [] [])) = [] \<and>
   loadCredentials
     (run [PutMessage (sample_message ''a'' 5), PutMessage (sample_message ''b'' 9)]
        (initial False [] [])) = [] \<and>
   loadMessages
     (run [PutMessage (sample_message ''a'' 5), PutMessage (sample_message ''b'' 9)]
        (initial False [] [])) = [sample_message ''b'' 9, sample_message ''a'' 5] \<and>
   descending
     (loadMessages
        (run [PutMessage (sample_message ''a'' 5), PutMessage (sample_message ''b'' 9)]
           (initial False [] [])))"
proof -
  let ?s = "run [PutMessage (sample_message ''a'' 5), PutMessage (sample_message ''b'' 9)]
              (initial False [] [])"
  have state: "?s = \<lparr>hasIndexedDB = False, inMemoryCredentials = [],
      inMemoryMessages = [sample_message ''b'' 9, sample_message ''a'' 5],
      dbCredentials = [], dbMessages = []\<rparr>"
    by (simp add: run_def initial_def persistMessage_def trimStore_def sort_desc_def
        STORE_LIMIT_def sample_message_def)
  have empty: "stored_credentials ?s = []"
    unfolding state by (simp add: stored_credentials_def)
  have msgs: "loadMessages ?s = [sample_message ''b'' 9, sample_message ''a'' 5]"
    unfolding state by (simp add: loadMessages_def fetchRecords_def)
  from loadAll_descending_complete[of
      "[PutMessage (sample_message ''a'' 5), PutMessage (sample_message ''b'' 9)]" False "[]" "[]"]
    empty msgs
  show ?thesis by simp
qed

subsection \<open>A put followed by a load\<close>

text \<open>
  Claim C3, as amended. For every state and every record whose timestamp is strictly
  greater than every timestamp in its store, a put of the record followed by a load
  yields a sequence whose head is that record, provided the store is backed by IndexedDB
  or the fallback array holds fewer than 100 records.
\<close>

theorem put_then_load_head:
  "((hasIndexedDB s \<or> length (inMemoryCredentials s) < STORE_LIMIT) \<and>
    (\<forall>x \<in> set (stored_credentials s). timestamp x < timestamp c) \<longrightarrow>
      take 1 (loadCredentials (persistCredential c s)) = [c]) \<and>
   ((hasIndexedDB s \<or> length (inMemoryMessages s) < STORE_LIMIT) \<and>
    (\<forall>x \<in> set (stored_messages s). timestamp x < timestamp m) \<longrightarrow>
      take 1 (loadMessages (persistMessage m s)) = [m])"
  using persistCredential_head[of s c] persistMessage_head[of s m] by blast

theorem put_then_load_head_witness:
  "length (inMemoryCredentials (persistMessage (sample_message ''a'' 5) (initial False [] [])))
     < STORE_LIMIT \<and>
   length (inMemoryMessages (persistMessage (sample_message ''a'' 5) (initial False [] [])))
     < STORE_LIMIT \<and>
   stored_credentials (persistMessage (sample_message ''a'' 5) (initial False [] [])) = [] \<and>
   stored_messages (persistMessage (sample_message ''a'' 5) (initial False [] [])) =
     [sample_message ''a'' 5] \<and>
   timestamp (sample_message ''a'' 5) < timestamp (sample_message ''b'' 9) \<and>
   take 1 (loadCredentials (persistCredential (sample_credential 7)
             (persistMessage (sample_message ''a'' 5) (initial False [] [])))) =
     [sample_credential 7] \<and>
   take 1 (loadMessages (persistMessage (sample_message ''b'' 9)
             (persistMessage (sample_message ''a'' 5) (initial False [] [])))) =
     [sample_message ''b'' 9]"
proof -
  let ?s = "persistMessage (sample_message ''a'' 5) (initial False [] [])"
  have state: "?s = \<lparr>hasIndexedDB = False, inMemoryCredentials = [],
      inMemoryMessages = [sample_message ''a'' 5], dbCredentials = [], dbMessages = []\<rparr>"
    by (simp add: initial_def persistMessage_def trimStore_def sort_desc_def STORE_LIMIT_def)
  have room: "length (inMemoryCredentials ?s) < STORE_LIMIT \<and>
      length (inMemoryMessages ?s) < STORE_LIMIT"
    unfolding state by (simp add: STORE_LIMIT_def)
  have creds: "stored_credentials ?s = []"
    unfolding state by (simp add: stored_credentials_def)
  have msgs: "stored_messages ?s = [sample_message ''a'' 5]"
    unfolding state by (simp add: stored_messages_def)
  have older: "timestamp (sample_message ''a'' 5) < timestamp (sample_message ''b'' 9)"
    by (simp add: sample_message_def)
  have h2: "\<forall>x \<in> set (stored_credentials ?s). timestamp x < timestamp (sample_credential 7)"
    unfolding creds by simp
  have h3: "\<forall>x \<in> set (stored_messages ?s). timestamp x < timestamp (sample_message ''b'' 9)"
    unfolding msgs using older by simp
  from put_then_load_head[of ?s "sample_credential 7" "sample_message ''b'' 9"] room h2 h3
  have heads: "take 1 (loadCredentials (persistCredential (sample_credential 7) ?s)) =
        [sample_credential 7] \<and>
      take 1 (loadMessages (persistMessage (sample_message ''b'' 9) ?s)) =
        [sample_message ''b'' 9]"
    by blast
  from heads room creds msgs older show ?thesis by blast
qed

text \<open>
  Claim C3 as first stated also admits a record whose timestamp equals the greatest one
  in the store. The store then holds two records with that timestamp, and the load puts
  the other one first: the index cursor orders equal timestamps by descending key, and the
  stable sort of the fallback array keeps the earlier arrival in front.
\<close>

theorem put_equal_timestamp_not_head:
  "timestamp (sample_message ''b'' 5) \<le> timestamp (sample_message ''a'' 5) \<and>
   stored_messages (persistMessage (sample_message ''b'' 5) (initial True [] [])) =
     [sample_message ''b'' 5] \<and>
   loadMessages (persistMessage (sample_message ''a'' 5)
     (persistMessage (sample_message ''b'' 5) (initial True [] []))) =
     [sample_message ''b'' 5, sample_message ''a'' 5] \<and>
   stored_messages (persistMessage (sample_message ''b'' 5) (initial False [] [])) =
     [sample_message ''b'' 5] \<and>
   loadMessages (persistMessage (sample_message ''a'' 5)
     (persistMessage (sample_message ''b'' 5) (initial False [] []))) =
     [sample_message ''b'' 5, sample_message ''a'' 5] \<and>
   hd (loadMessages (persistMessage (sample_message ''a'' 5)
     (persistMessage (sample_message ''b'' 5) (initial True [] [])))) \<noteq> sample_message ''a'' 5 \<and>
   hd (loadMessages (persistMessage (sample_message ''a'' 5)
     (persistMessage (sample_message ''b'' 5) (initial False [] [])))) \<noteq> sample_message ''a'' 5"
  by (simp add: initial_def persistMessage_def trimStore_def sort_desc_def STORE_LIMIT_def
      store_put_def store_delete_def index_prev_def loadMessages_def fetchRecords_def
      stored_messages_def sample_message_def)

subsection \<open>One hundred and fifty puts\<close>

lemma run_snoc: "run (puts @ [p]) s = perform (run puts s) p"
  by (simp add: run_def)

lemma descending_samples: "descending (map sample_credential (rev [1..k]))"
proof -
  have "sorted_wrt (\<lambda>a b. a \<le> b) [1..k]" using sorted_upto[of 1 k] by simp
  then have "sorted_wrt (\<lambda>a b. b \<le> a) (rev [1..k])" by (simp add: sorted_wrt_rev)
  then show ?thesis
    by (simp add: descending_def sorted_wrt_map sample_credential_def)
qed

lemma descending_sample_messages:
  "descending (map (\<lambda>t. sample_message (toString t) t) (rev [1..k]))"
proof -
  have "sorted_wrt (\<lambda>a b. a \<le> b) [1..k]" using sorted_upto[of 1 k] by simp
  then have "sorted_wrt (\<lambda>a b. b \<le> a) (rev [1..k])" by (simp add: sorted_wrt_rev)
  then show ?thesis
    by (simp add: descending_def sorted_wrt_map sample_message_def)
qed

lemma fallback_credentials_after:
  "run (map (\<lambda>t. PutCredential (sample_credential t)) [1..int n]) (initial False [] []) =
     (initial False [] [])\<lparr>inMemoryCredentials :=
        map sample_credential (rev [1..int (min n 100)])\<rparr>"
proof (induction n)
  case 0
  then show ?case by (simp add: run_def initial_def)
next
  case (Suc n)
  let ?s = "(initial False [] [])\<lparr>inMemoryCredentials :=
        map sample_credential (rev [1..int (min n 100)])\<rparr>"
  have upto: "[1..int (Suc n)] = [1..int n] @ [int n + 1]"
    using upto_rec2[of 1 "int n + 1"] by (simp add: add.commute)
  have step: "run (map (\<lambda>t. PutCredential (sample_credential t)) [1..int (Suc n)])
          (initial False [] []) = persistCredential (sample_credential (int n + 1)) ?s"
    unfolding upto by (simp add: run_snoc Suc.IH)
  have mem: "\<not> hasIndexedDB ?s" by (simp add: initial_def)
  have arr: "inMemoryCredentials ?s = map sample_credential (rev [1..int (min n 100)])" by simp
  have desc: "descending (inMemoryCredentials ?s)" unfolding arr by (rule descending_samples)
  have older: "\<forall>x \<in> set (inMemoryCredentials ?s). timestamp x < timestamp (sample_credential (int n + 1))"
    unfolding arr by (auto simp: sample_credential_def)
  have len: "length (inMemoryCredentials ?s) = min n 100" unfolding arr by simp
  show ?case
  proof (cases "n < 100")
    case True
    then have m: "min n 100 = n" "min (Suc n) 100 = Suc n" by simp_all
    from True len have "length (inMemoryCredentials ?s) < STORE_LIMIT" by (simp add: STORE_LIMIT_def)
    from persistCredential_mem_room[OF mem desc older this]
    have "persistCredential (sample_credential (int n + 1)) ?s =
        ?s\<lparr>inMemoryCredentials := sample_credential (int n + 1) # inMemoryCredentials ?s\<rparr>" .
    then show ?thesis unfolding step using upto m by simp
  next
    case False
    then have m: "min n 100 = 100" "min (Suc n) 100 = 100" by simp_all
    from False len have "length (inMemoryCredentials ?s) = STORE_LIMIT" by (simp add: STORE_LIMIT_def)
    from persistCredential_mem_full[OF mem desc older this]
    show ?thesis unfolding step using m by simp
  qed
qed

lemma fallback_messages_after:
  "run (map (\<lambda>t. PutMessage (sample_message (toString t) t)) [1..int n]) (initial False [] []) =
     (initial False [] [])\<lparr>inMemoryMessages :=
        map (\<lambda>t. sample_message (toString t) t) (rev [1..int (min n 100)])\<rparr>"
proof (induction n)
  case 0
  then show ?case by (simp add: run_def initial_def)
next
  case (Suc n)
  let ?s = "(initial False [] [])\<lparr>inMemoryMessages :=
        map (\<lambda>t. sample_message (toString t) t) (rev [1..int (min n 100)])\<rparr>"
  have upto: "[1..int (Suc n)] = [1..int n] @ [int n + 1]"
    using upto_rec2[of 1 "int n + 1"] by (simp add: add.commute)
  have step: "run (map (\<lambda>t. PutMessage (sample_message (toString t) t)) [1..int (Suc n)])
          (initial False [] []) = persistMessage (sample_message (toString (int n + 1)) (int n + 1)) ?s"
    unfolding upto by (simp add: run_snoc Suc.IH)
  have mem: "\<not> hasIndexedDB ?s" by (simp add: initial_def)
  have arr: "inMemoryMessages ?s = map (\<lambda>t. sample_message (toString t) t) (rev [1..int (min n 100)])" by simp
  have desc: "descending (inMemoryMessages ?s)" unfolding arr by (rule descending_sample_messages)
  have older: "\<forall>x \<in> set (inMemoryMessages ?s). timestamp x < timestamp (sample_message (toString (int n + 1)) (int n + 1))"
    unfolding arr by (auto simp: sample_message_def)
  have len: "length (inMemoryMessages ?s) = min n 100" unfolding arr by simp
  show ?case
  proof (cases "n < 100")
    case True
    then have m: "min n 100 = n" "min (Suc n) 100 = Suc n" by simp_all
    from True len have "length (inMemoryMessages ?s) < STORE_LIMIT" by (simp add: STORE_LIMIT_def)
    from persistMessage_mem_room[OF mem desc older this]
    have "persistMessage (sample_message (toString (int n + 1)) (int n + 1)) ?s =
        ?s\<lparr>inMemoryMessages := sample_message (toString (int n + 1)) (int n + 1) # inMemoryMessages ?s\<rparr>" .
    then show ?thesis unfolding step using upto m by simp
  next
    case False
    then have m: "min n 100 = 100" "min (Suc n) 100 = 100" by simp_all
    from False len have "length (inMemoryMessages ?s) = STORE_LIMIT" by (simp add: STORE_LIMIT_def)
    from persistMessage_mem_full[OF mem desc older this]
    show ?thesis unfolding step using m by simp
  qed
qed

text \<open>
  Claim C1 at the fallback stores. Without IndexedDB, 150 records with the timestamps 1 to
  150, put one after the other, leave the records with the timestamps 100 down to 1, in
  the credential store as in the message store: the fallback array is sorted with the most
  recent record first, and \<^verbatim>\<open>trimStore\<close> removes the excess from its front. With IndexedDB
  the cursor of \<^verbatim>\<open>trimStore\<close> deletes from the hundred-and-first most recent record on
  (lemmas \<open>persistCredential_idb_keeps_most_recent\<close> and
  \<open>persistMessage_idb_keeps_most_recent\<close>).
\<close>

theorem fallback_trim_evicts_newest:
  "loadCredentials
     (run (map (\<lambda>t. PutCredential (sample_credential t)) [1..150]) (initial False [] [])) =
   map sample_credential (rev [1..100]) \<and>
   loadMessages
     (run (map (\<lambda>t. PutMessage (sample_message (toString t) t)) [1..150])
        (initial False [] [])) =
   map (\<lambda>t. sample_message (toString t) t) (rev [1..100])"
  using fallback_credentials_after[of 150] fallback_messages_after[of 150]
  by (simp add: loadCredentials_mem loadMessages_mem initial_def)

end
